theory Spec2Isabelle
  imports Main "HOL-Library.Word"
begin

section \<open>Python strings and the character tables used by the matcher\<close>

text \<open>
  A Python \<open>str\<close> is a sequence of Unicode code points; it is modelled as a list of
  natural numbers.  ASCII literals of the source are written with \<open>ascii\<close>.
\<close>

type_synonym ustr = "nat list"

definition ascii :: "string \<Rightarrow> ustr" where
  "ascii s = map of_char s"

text \<open>
  \<open>str.isspace\<close> on one code point, which is also what \<open>\s\<close> matches in a \<open>str\<close>
  pattern and what \<open>str.strip()\<close> removes.
\<close>

definition isspace :: "nat \<Rightarrow> bool" where
  "isspace c =
     ((9 \<le> c \<and> c \<le> 13) \<or> (28 \<le> c \<and> c \<le> 32) \<or> c = 0x85 \<or> c = 0xA0 \<or> c = 0x1680
      \<or> (0x2000 \<le> c \<and> c \<le> 0x200A) \<or> c = 0x2028 \<or> c = 0x2029 \<or> c = 0x202F
      \<or> c = 0x205F \<or> c = 0x3000)"

text \<open>
  The word characters of \<open>\b\<close>: alphanumeric code points and the underscore.  The table
  is written out on ASCII, on white space and the full-width colon (never alphanumeric)
  and on the CJK unified ideographs U+4E00..U+9FA5 (all alphanumeric); elsewhere it is
  the Unicode database's alphanumeric property, taken as the parameter \<open>W\<close>.
\<close>

definition is_word :: "(nat \<Rightarrow> bool) \<Rightarrow> nat \<Rightarrow> bool" where
  "is_word W c =
     (if c < 128 then (48 \<le> c \<and> c \<le> 57) \<or> (65 \<le> c \<and> c \<le> 90) \<or> c = 95 \<or> (97 \<le> c \<and> c \<le> 122)
      else if isspace c \<or> c = 0xFF1A then False
      else if 0x4E00 \<le> c \<and> c \<le> 0x9FA5 then True
      else W c)"

text \<open>
  The code points that a pattern literal matches under \<open>re.IGNORECASE\<close>: for an ASCII
  letter both cases, and the code points that lower-case or case-fold to it (U+0130 and
  U+0131 for i, U+017F for s, U+212A for k); any other literal of the patterns below is
  uncased and matches itself only.
\<close>

definition ci_variants :: "nat \<Rightarrow> nat list" where
  "ci_variants l =
     (if 97 \<le> l \<and> l \<le> 122 then
        [l, l - 32] @ (if l = 105 then [0x130, 0x131] else if l = 115 then [0x17F]
                       else if l = 107 then [0x212A] else [])
      else if 65 \<le> l \<and> l \<le> 90 then
        [l + 32, l] @ (if l = 73 then [0x130, 0x131] else if l = 83 then [0x17F]
                       else if l = 75 then [0x212A] else [])
      else [l])"

section \<open>A backtracking matcher for the pattern constructs the program uses\<close>

datatype atom = Lit nat | In "nat list" | Space

datatype regex = Chr atom | Star atom | Opt atom | Bol | WordB | Alt "regex list list"

record flags =
  ignorecase :: bool
  multiline :: bool

text \<open>A position is the code point before it (\<open>None\<close> at the start of the string) and the
  rest of the string.\<close>

type_synonym pos = "nat option \<times> ustr"

definition lit_match :: "flags \<Rightarrow> nat \<Rightarrow> nat \<Rightarrow> bool" where
  "lit_match fl l c = (if ignorecase fl then c \<in> set (ci_variants l) else c = l)"

fun atom_match :: "flags \<Rightarrow> atom \<Rightarrow> nat \<Rightarrow> bool" where
  "atom_match fl (Lit l) c = lit_match fl l c"
| "atom_match fl (In ls) c = list_ex (\<lambda>l. lit_match fl l c) ls"
| "atom_match fl Space c = isspace c"

text \<open>Greedy repetition of a one-character matcher: the positions after each possible
  number of repetitions, the longest first, which is the order in which the engine tries
  them.\<close>

fun star_ends :: "flags \<Rightarrow> atom \<Rightarrow> nat option \<Rightarrow> ustr \<Rightarrow> pos list" where
  "star_ends fl a prev [] = [(prev, [])]"
| "star_ends fl a prev (c # cs) =
     (if atom_match fl a c then star_ends fl a (Some c) cs @ [(prev, c # cs)]
      else [(prev, c # cs)])"

definition at_boundary :: "(nat \<Rightarrow> bool) \<Rightarrow> pos \<Rightarrow> bool" where
  "at_boundary W p =
     (let that = (case fst p of None \<Rightarrow> False | Some c \<Rightarrow> is_word W c);
          this = (case snd p of [] \<Rightarrow> False | c # _ \<Rightarrow> is_word W c)
      in this \<noteq> that)"

definition at_beginning :: "flags \<Rightarrow> pos \<Rightarrow> bool" where
  "at_beginning fl p = (fst p = None \<or> (multiline fl \<and> fst p = Some 10))"

text \<open>All ways one construct, or a sequence of constructs, matches at a position, as the
  positions where the match ends, in the engine's order of preference (leftmost
  alternative first, greedy repetition).\<close>

fun rmatch :: "(nat \<Rightarrow> bool) \<Rightarrow> flags \<Rightarrow> regex \<Rightarrow> pos \<Rightarrow> pos list"
  and rmatch_seq :: "(nat \<Rightarrow> bool) \<Rightarrow> flags \<Rightarrow> regex list \<Rightarrow> pos \<Rightarrow> pos list"
  and rmatch_alts :: "(nat \<Rightarrow> bool) \<Rightarrow> flags \<Rightarrow> regex list list \<Rightarrow> pos \<Rightarrow> pos list" where
  "rmatch W fl (Chr a) p =
     (case snd p of [] \<Rightarrow> [] | c # cs \<Rightarrow> if atom_match fl a c then [(Some c, cs)] else [])"
| "rmatch W fl (Star a) p = star_ends fl a (fst p) (snd p)"
| "rmatch W fl (Opt a) p =
     (case snd p of [] \<Rightarrow> [p] | c # cs \<Rightarrow> if atom_match fl a c then [(Some c, cs), p] else [p])"
| "rmatch W fl Bol p = (if at_beginning fl p then [p] else [])"
| "rmatch W fl WordB p = (if at_boundary W p then [p] else [])"
| "rmatch W fl (Alt alts) p = rmatch_alts W fl alts p"
| "rmatch_seq W fl [] p = [p]"
| "rmatch_seq W fl (r # rs) p = concat (map (rmatch_seq W fl rs) (rmatch W fl r p))"
| "rmatch_alts W fl [] p = []"
| "rmatch_alts W fl (sq # alts) p = rmatch_seq W fl sq p @ rmatch_alts W fl alts p"


text \<open>
  \<open>re.search\<close>: the start positions are tried from left to right, and at the first one
  where the pattern matches, the engine's first match is taken.  The result is the text
  before the match (\<open>s[:m.start()]\<close>) and the text after it (\<open>s[m.end():]\<close>).  The
  argument \<open>bef\<close> is the text before the current position, reversed.
\<close>

definition prev_of :: "ustr \<Rightarrow> nat option" where
  "prev_of bef = (case bef of [] \<Rightarrow> None | c # _ \<Rightarrow> Some c)"

fun search_from :: "(nat \<Rightarrow> bool) \<Rightarrow> flags \<Rightarrow> regex list \<Rightarrow> ustr \<Rightarrow> ustr \<Rightarrow> (ustr \<times> ustr) option" where
  "search_from W fl rs bef [] =
     (case rmatch_seq W fl rs (prev_of bef, []) of
        [] \<Rightarrow> None
      | e # _ \<Rightarrow> Some (rev bef, snd e))"
| "search_from W fl rs bef (c # cs) =
     (case rmatch_seq W fl rs (prev_of bef, c # cs) of
        [] \<Rightarrow> search_from W fl rs (c # bef) cs
      | e # _ \<Rightarrow> Some (rev bef, snd e))"

definition re_search :: "(nat \<Rightarrow> bool) \<Rightarrow> flags \<Rightarrow> regex list \<Rightarrow> ustr \<Rightarrow> (ustr \<times> ustr) option" where
  "re_search W fl rs s = search_from W fl rs [] s"

text \<open>
  \<open>re.sub(pattern, '', s)\<close>: every match found from left to right is deleted, the search
  going on where the last match ended.  After an empty match the engine must advance: at
  that position only a non-empty match is accepted.  The measure below counts the
  remaining text, so a match is followed only when it ends inside it.
\<close>

definition first_end :: "bool \<Rightarrow> ustr \<Rightarrow> pos list \<Rightarrow> pos option" where
  "first_end must_advance rest es =
     (case filter (\<lambda>e. \<not> must_advance \<or> length (snd e) < length rest) es of
        [] \<Rightarrow> None | e # _ \<Rightarrow> Some e)"

function sub_from :: "(nat \<Rightarrow> bool) \<Rightarrow> flags \<Rightarrow> regex list \<Rightarrow> bool \<Rightarrow> nat option \<Rightarrow> ustr \<Rightarrow> ustr" where
  "sub_from W fl rs must_advance prev rest =
     (case first_end must_advance rest (rmatch_seq W fl rs (prev, rest)) of
        Some e \<Rightarrow>
          (if length (snd e) < length rest then sub_from W fl rs False (fst e) (snd e)
           else if \<not> must_advance then sub_from W fl rs True prev rest
           else (case rest of [] \<Rightarrow> [] | c # cs \<Rightarrow> c # sub_from W fl rs False (Some c) cs))
      | None \<Rightarrow> (case rest of [] \<Rightarrow> [] | c # cs \<Rightarrow> c # sub_from W fl rs False (Some c) cs))"
  by pat_completeness auto
termination
  by (relation "measure (\<lambda>(W, fl, rs, ma, prev, rest). 2 * length rest + (if ma then 0 else 1))")
     auto

definition re_sub_empty :: "(nat \<Rightarrow> bool) \<Rightarrow> flags \<Rightarrow> regex list \<Rightarrow> ustr \<Rightarrow> ustr" where
  "re_sub_empty W fl rs s = sub_from W fl rs False None s"

section \<open>String methods\<close>

text \<open>\<open>s.replace("\r\n", "\n")\<close>\<close>

fun replace_crlf :: "ustr \<Rightarrow> ustr" where
  "replace_crlf [] = []"
| "replace_crlf [c] = [c]"
| "replace_crlf (c # d # cs) =
     (if c = 13 \<and> d = 10 then 10 # replace_crlf cs else c # replace_crlf (d # cs))"

definition lstrip :: "ustr \<Rightarrow> ustr" where
  "lstrip s = dropWhile isspace s"

definition rstrip :: "ustr \<Rightarrow> ustr" where
  "rstrip s = rev (dropWhile isspace (rev s))"

definition strip :: "ustr \<Rightarrow> ustr" where
  "strip s = rstrip (lstrip s)"

text \<open>\<open>sep.join(parts)\<close>\<close>

fun join :: "ustr \<Rightarrow> ustr list \<Rightarrow> ustr" where
  "join sep [] = []"
| "join sep [p] = p"
| "join sep (p # q # ps) = p @ sep @ join sep (q # ps)"

section \<open>The patterns of the program\<close>

definition lits :: "ustr \<Rightarrow> regex list" where
  "lits w = map (\<lambda>c. Chr (Lit c)) w"

definition colon :: atom where
  "colon = In [58, 0xFF1A]"

text \<open>The labels \<open>prompt|positive|U+63D0 U+793A U+8BCD|U+6B63 U+5411\<close>.\<close>

definition positive_labels :: "regex list list" where
  "positive_labels =
     [lits (ascii ''prompt''), lits (ascii ''positive''),
      lits [0x63D0, 0x793A, 0x8BCD], lits [0x6B63, 0x5411]]"

text \<open>The same labels in the order of the cleanup pattern: \<open>positive|prompt|...\<close>.\<close>

definition positive_labels_cleanup :: "regex list list" where
  "positive_labels_cleanup =
     [lits (ascii ''positive''), lits (ascii ''prompt''),
      lits [0x63D0, 0x793A, 0x8BCD], lits [0x6B63, 0x5411]]"

text \<open>The labels \<open>negative\s*prompt|negative|neg|avoid|disallow|do\s*not|U+8D1F U+5411|
  U+8D1F U+9762|U+907F U+514D|U+4E0D U+8981\<close>.\<close>

definition negative_labels :: "regex list list" where
  "negative_labels =
     [lits (ascii ''negative'') @ [Star Space] @ lits (ascii ''prompt''),
      lits (ascii ''negative''), lits (ascii ''neg''),
      lits (ascii ''avoid''), lits (ascii ''disallow''),
      lits (ascii ''do'') @ [Star Space] @ lits (ascii ''not''),
      lits [0x8D1F, 0x5411], lits [0x8D1F, 0x9762], lits [0x907F, 0x514D], lits [0x4E0D, 0x8981]]"

text \<open>\<open>(?is)(?:^|\n)\s*(prompt|positive|...)\s*[:U+FF1A]\s*\<close>; the flag \<open>s\<close> only changes
  the dot, which the pattern does not use.\<close>

definition fl_is :: flags where
  "fl_is = \<lparr>ignorecase = True, multiline = False\<rparr>"

definition fl_im :: flags where
  "fl_im = \<lparr>ignorecase = True, multiline = True\<rparr>"

definition fl_i :: flags where
  "fl_i = \<lparr>ignorecase = True, multiline = False\<rparr>"

definition prompt_label_re :: "regex list" where
  "prompt_label_re =
     [Alt [[Bol], [Chr (Lit 10)]], Star Space, Alt positive_labels,
      Star Space, Chr colon, Star Space]"

text \<open>\<open>(?im)\b(negative\s*prompt|...)\s*[:U+FF1A]\s*\<close>\<close>

definition neg_re :: "regex list" where
  "neg_re = [WordB, Alt negative_labels, Star Space, Chr colon, Star Space]"

text \<open>\<open>(?im)^\s*(positive|prompt|...)\s*[:U+FF1A]\s*\<close>\<close>

definition pos_cleanup_re :: "regex list" where
  "pos_cleanup_re = [Bol, Star Space, Alt positive_labels_cleanup, Star Space, Chr colon, Star Space]"

text \<open>\<open>(?im)^\s*(negative\s*prompt|...)\s*[:U+FF1A]\s*\<close>\<close>

definition neg_cleanup_re :: "regex list" where
  "neg_cleanup_re = [Bol, Star Space, Alt negative_labels, Star Space, Chr colon, Star Space]"

text \<open>\<open>^\s*(U+7528 U+6237|User)\s*[:U+FF1A]?\s*\n?\<close> with \<open>flags=re.IGNORECASE\<close>\<close>

definition user_re :: "regex list" where
  "user_re =
     [Bol, Star Space, Alt [lits [0x7528, 0x6237], lits (ascii ''User'')],
      Star Space, Opt colon, Star Space, Opt (Lit 10)]"

section \<open>The sanitizer and the splitter\<close>

text \<open>\<open>_sanitize_reasoning_text\<close>, on a \<open>str\<close> argument.\<close>

definition sanitize_reasoning_text :: "(nat \<Rightarrow> bool) \<Rightarrow> ustr \<Rightarrow> ustr" where
  "sanitize_reasoning_text W text =
     (let t = replace_crlf text;
          t = re_sub_empty W fl_i user_re t
      in strip t)"

text \<open>
  \<open>_split_positive_negative\<close>, in its three steps.  Step 1 cuts everything up to and
  including the first positive label; step 2 splits at the first negative label; step 3
  deletes the labels left at the start of a line of either part.
\<close>

definition trim_preamble :: "(nat \<Rightarrow> bool) \<Rightarrow> ustr \<Rightarrow> ustr" where
  "trim_preamble W s =
     (case re_search W fl_is prompt_label_re s of
        Some (bef, aft) \<Rightarrow> lstrip aft
      | None \<Rightarrow> s)"

definition split_at_negative :: "(nat \<Rightarrow> bool) \<Rightarrow> ustr \<Rightarrow> ustr \<times> ustr" where
  "split_at_negative W s =
     (case re_search W fl_im neg_re s of
        Some (bef, aft) \<Rightarrow> (strip bef, strip aft)
      | None \<Rightarrow> (strip s, []))"

definition cleanup_pos :: "(nat \<Rightarrow> bool) \<Rightarrow> ustr \<Rightarrow> ustr" where
  "cleanup_pos W pos = strip (re_sub_empty W fl_im pos_cleanup_re pos)"

definition cleanup_neg :: "(nat \<Rightarrow> bool) \<Rightarrow> ustr \<Rightarrow> ustr" where
  "cleanup_neg W neg = strip (re_sub_empty W fl_im neg_cleanup_re neg)"

definition cleanup :: "(nat \<Rightarrow> bool) \<Rightarrow> ustr \<times> ustr \<Rightarrow> ustr \<times> ustr" where
  "cleanup W pn = (cleanup_pos W (fst pn), cleanup_neg W (snd pn))"

definition split_positive_negative :: "(nat \<Rightarrow> bool) \<Rightarrow> ustr \<Rightarrow> ustr \<times> ustr" where
  "split_positive_negative W text =
     (if text = [] then ([], [])
      else
        cleanup W (split_at_negative W (trim_preamble W (strip (replace_crlf text)))))"

definition adv :: "nat option \<Rightarrow> ustr \<Rightarrow> nat option" where
  "adv prev u = (if u = [] then prev else Some (last u))"

text \<open>The text the splitter works on: line endings normalised, then trimmed.\<close>

definition normalized :: "ustr \<Rightarrow> ustr" where
  "normalized text = strip (replace_crlf text)"

text \<open>A positive label as step 1 looks for it, and a negative label as step 2 does.\<close>

definition has_positive_label :: "(nat \<Rightarrow> bool) \<Rightarrow> ustr \<Rightarrow> bool" where
  "has_positive_label W s = (re_search W fl_is prompt_label_re s \<noteq> None)"

definition has_negative_label :: "(nat \<Rightarrow> bool) \<Rightarrow> ustr \<Rightarrow> bool" where
  "has_negative_label W s = (re_search W fl_im neg_re s \<noteq> None)"

section \<open>Decoded JSON values and the operations the program applies to them\<close>

text \<open>
  What \<open>resp.json()\<close> returns: \<open>None\<close>, a \<open>bool\<close>, an \<open>int\<close>, a \<open>float\<close> (an IEEE double,
  held as its 64 bits), a \<open>str\<close>, a \<open>list\<close> or a \<open>dict\<close> with \<open>str\<close> keys (each key once).
\<close>

datatype json =
    JNull
  | JBool bool
  | JInt int
  | JFloat "64 word"
  | JStr ustr
  | JList "json list"
  | JDict "(ustr \<times> json) list"

text \<open>An exception is a value: its class and the text \<open>str(e)\<close> gives.\<close>

datatype exn_class = AttributeError | TypeError | KeyError | IndexError | ValueError | OtherError

datatype exn = Exn exn_class ustr

fun exn_message :: "exn \<Rightarrow> ustr" where
  "exn_message (Exn k m) = m"

text \<open>Truth value testing, as \<open>if x\<close>, \<open>x or y\<close> and \<open>not x\<close> apply it.\<close>

fun truthy :: "json \<Rightarrow> bool" where
  "truthy JNull = False"
| "truthy (JBool b) = b"
| "truthy (JInt i) = (i \<noteq> 0)"
| "truthy (JFloat w) = (take_bit 63 w \<noteq> 0)"
| "truthy (JStr s) = (s \<noteq> [])"
| "truthy (JList xs) = (xs \<noteq> [])"
| "truthy (JDict kvs) = (kvs \<noteq> [])"

definition py_or :: "json \<Rightarrow> json \<Rightarrow> json" where
  "py_or a b = (if truthy a then a else b)"

fun type_name :: "json \<Rightarrow> ustr" where
  "type_name JNull = ascii ''NoneType''"
| "type_name (JBool b) = ascii ''bool''"
| "type_name (JInt i) = ascii ''int''"
| "type_name (JFloat w) = ascii ''float''"
| "type_name (JStr s) = ascii ''str''"
| "type_name (JList xs) = ascii ''list''"
| "type_name (JDict kvs) = ascii ''dict''"

text \<open>\<open>d.get(key, default)\<close> on a \<open>dict\<close>.\<close>

definition dict_get :: "(ustr \<times> json) list \<Rightarrow> ustr \<Rightarrow> json \<Rightarrow> json" where
  "dict_get kvs k dflt = (case map_of kvs k of None \<Rightarrow> dflt | Some v \<Rightarrow> v)"

text \<open>\<open>x.get(key, default)\<close> on any decoded value: only a \<open>dict\<close> has the method.\<close>

fun py_get :: "json \<Rightarrow> ustr \<Rightarrow> json \<Rightarrow> exn + json" where
  "py_get (JDict kvs) k dflt = Inr (dict_get kvs k dflt)"
| "py_get x k dflt =
     Inl (Exn AttributeError
            (ascii [CHR 0x27] @ type_name x @ ascii [CHR 0x27] @ ascii '' object has no attribute ''
             @ ascii [CHR 0x27] @ ascii ''get'' @ ascii [CHR 0x27]))"

text \<open>\<open>x[0]\<close> on any decoded value.\<close>

fun py_index0 :: "json \<Rightarrow> exn + json" where
  "py_index0 (JList []) = Inl (Exn IndexError (ascii ''list index out of range''))"
| "py_index0 (JList (x # xs)) = Inr x"
| "py_index0 (JStr []) = Inl (Exn IndexError (ascii ''string index out of range''))"
| "py_index0 (JStr (c # cs)) = Inr (JStr [c])"
| "py_index0 (JDict kvs) = Inl (Exn KeyError (ascii ''0''))"
| "py_index0 x =
     Inl (Exn TypeError
            (ascii [CHR 0x27] @ type_name x @ ascii [CHR 0x27] @ ascii '' object is not subscriptable''))"

text \<open>\<open>str(n)\<close> for an \<open>int\<close>.\<close>

function str_nat :: "nat \<Rightarrow> ustr" where
  "str_nat n = (if n < 10 then [48 + n] else str_nat (n div 10) @ [48 + n mod 10])"
  by pat_completeness auto
termination
  by (relation "measure (\<lambda>n. n)") auto

definition str_int :: "int \<Rightarrow> ustr" where
  "str_int i = (if i < 0 then 45 # str_nat (nat (- i)) else str_nat (nat i))"

section \<open>The content extractor\<close>

text \<open>
  \<open>_extract_text_from_content\<close>.  The loop over the blocks appends to \<open>parts\<close>; one
  round of it is \<open>extract_block\<close>.  The conversion \<open>str(value)\<close> of the last branch is the
  interpreter's, taken as the parameter \<open>py_str\<close>, which may raise.
\<close>

fun extract_block :: "ustr list \<Rightarrow> json \<Rightarrow> ustr list" where
  "extract_block parts (JDict kvs) =
     (let t = py_or (py_or (dict_get kvs (ascii ''text'') JNull) (dict_get kvs (ascii ''content'') JNull))
                    (JStr [])
      in case t of
           JStr s \<Rightarrow> if strip s \<noteq> [] then parts @ [s] else parts
         | _ \<Rightarrow> parts)"
| "extract_block parts blk = parts"

fun extract_blocks :: "ustr list \<Rightarrow> json list \<Rightarrow> ustr list" where
  "extract_blocks parts [] = parts"
| "extract_blocks parts (blk # blks) = extract_blocks (extract_block parts blk) blks"

fun extract_text_from_content :: "(json \<Rightarrow> exn + ustr) \<Rightarrow> json \<Rightarrow> exn + ustr" where
  "extract_text_from_content py_str JNull = Inr []"
| "extract_text_from_content py_str (JStr s) = Inr s"
| "extract_text_from_content py_str (JList blks) = Inr (strip (join [10] (extract_blocks [] blks)))"
| "extract_text_from_content py_str v = (case py_str v of Inr s \<Rightarrow> Inr s | Inl e \<Rightarrow> Inr [])"

section \<open>The source selector\<close>

text \<open>The choice of \<open>out_src\<close> in \<open>ask\<close>; a \<open>str\<close> is true when it is not empty.\<close>

definition select_source :: "ustr \<Rightarrow> ustr \<Rightarrow> ustr \<Rightarrow> ustr \<Rightarrow> ustr" where
  "select_source content_source content reasoning fallback =
     (if content_source = ascii ''content_only'' then
        (if content \<noteq> [] then content else (if fallback \<noteq> [] then fallback else reasoning))
      else if content_source = ascii ''reasoning_only'' then
        (if reasoning \<noteq> [] then reasoning else (if fallback \<noteq> [] then fallback else content))
      else
        (if content \<noteq> [] then content else (if reasoning \<noteq> [] then reasoning else fallback)))"

text \<open>The selection policy in the words of the specification: the first non-empty string
  of a list, the empty string when there is none.\<close>

fun first_nonempty :: "ustr list \<Rightarrow> ustr" where
  "first_nonempty [] = []"
| "first_nonempty (x # xs) = (if x \<noteq> [] then x else first_nonempty xs)"

section \<open>The response assembler\<close>

text \<open>
  The reply of the transport as \<open>ask\<close> reads it: the status code, what \<open>resp.json()\<close>
  returns or raises, and the body text \<open>resp.text\<close>.
\<close>

record response =
  status_code :: int
  json_body :: "exn + json"
  body_text :: ustr

text \<open>The four variables that \<open>ask\<close> returns.\<close>

record outputs =
  positive :: ustr
  negative :: ustr
  answer_text :: ustr
  raw_json_text :: ustr

text \<open>The interpreter's functions that \<open>ask\<close> calls: the word table of the matcher,
  \<open>json.dumps(data, ensure_ascii=False, indent=2)\<close> and \<open>str\<close> on a decoded value.\<close>

record runtime =
  uni_alnum :: "nat \<Rightarrow> bool"
  json_dumps :: "json \<Rightarrow> ustr"
  py_str :: "json \<Rightarrow> exn + ustr"

text \<open>An exception raised by a step ends the steps that follow it.\<close>

definition and_then :: "exn + 'a \<Rightarrow> ('a \<Rightarrow> exn + 'b) \<Rightarrow> exn + 'b" where
  "and_then x f = (case x of Inl e \<Rightarrow> Inl e | Inr v \<Rightarrow> f v)"

text \<open>The text chosen from the first choice (the lines from \<open>msg = ...\<close> to the choice of
  \<open>out_src\<close>); any of the lookups may raise.\<close>

definition choice_source :: "runtime \<Rightarrow> ustr \<Rightarrow> json \<Rightarrow> exn + ustr" where
  "choice_source rt content_source c0 =
     and_then (py_get c0 (ascii ''message'') (JDict [])) (\<lambda>m.
     let msg = py_or m (JDict []) in
     and_then (py_get msg (ascii ''content'') JNull) (\<lambda>cv.
     and_then (extract_text_from_content (py_str rt) cv) (\<lambda>content.
     and_then (py_get msg (ascii ''reasoning_content'') JNull) (\<lambda>rv.
     and_then (extract_text_from_content (py_str rt) rv) (\<lambda>reasoning.
     and_then (py_get c0 (ascii ''text'') JNull) (\<lambda>tv.
     and_then (extract_text_from_content (py_str rt) tv) (\<lambda>fallback.
     Inr (select_source content_source content reasoning fallback))))))))"

text \<open>The branch \<open>if choices:\<close>.\<close>

definition use_choices :: "runtime \<Rightarrow> ustr \<Rightarrow> json \<Rightarrow> outputs \<Rightarrow> exn + outputs" where
  "use_choices rt content_source choices st =
     (if truthy choices then
        and_then (py_index0 choices) (\<lambda>c0.
        and_then (choice_source rt content_source c0) (\<lambda>out_src.
        Inr (st\<lparr>positive := fst (split_positive_negative (uni_alnum rt) out_src),
                negative := snd (split_positive_negative (uni_alnum rt) out_src),
                answer_text := sanitize_reasoning_text (uni_alnum rt) out_src\<rparr>)))
      else Inr st)"

definition empty_placeholder :: "outputs \<Rightarrow> outputs" where
  "empty_placeholder st =
     (if answer_text st = [] then st\<lparr>answer_text := ascii ''[OpenAIAsk] Empty content from server.''\<rparr>
      else st)"

definition latency_note :: "ustr \<Rightarrow> ustr" where
  "latency_note elapsed = [10, 10] @ ascii ''[latency: '' @ elapsed @ ascii '']''"

text \<open>The body of the \<open>try\<close>: the variables at the end, or the exception raised together
  with the variables at that moment.\<close>

definition try_parse :: "runtime \<Rightarrow> ustr \<Rightarrow> ustr \<Rightarrow> response \<Rightarrow> outputs \<Rightarrow> (exn \<times> outputs) + outputs" where
  "try_parse rt content_source elapsed resp st0 =
     (case json_body resp of
        Inl e \<Rightarrow> Inl (e, st0)
      | Inr data \<Rightarrow>
          (let st1 = st0\<lparr>raw_json_text := json_dumps rt data\<rparr> in
           if status_code resp \<ge> 400 then
             (case py_str rt data of
                Inl e \<Rightarrow> Inl (e, st1)
              | Inr d \<Rightarrow>
                  Inr (st1\<lparr>answer_text := ascii ''[OpenAIAsk] HTTP '' @ str_int (status_code resp)
                                             @ ascii '': '' @ d\<rparr>))
           else
             (case and_then (py_get data (ascii ''choices'') (JList []))
                     (\<lambda>choices. use_choices rt content_source choices st1) of
                Inl e \<Rightarrow> Inl (e, st1)
              | Inr st2 \<Rightarrow>
                  (let st3 = empty_placeholder st2
                   in Inr (st3\<lparr>answer_text := answer_text st3 @ latency_note elapsed\<rparr>)))))"

text \<open>Step 6 of \<open>ask\<close>: the four variables start empty, the \<open>try\<close> runs, and the handler
  \<open>except Exception as e\<close> overwrites \<open>answer_text\<close> and \<open>raw_json_text\<close>.\<close>

definition parse_response :: "runtime \<Rightarrow> ustr \<Rightarrow> ustr \<Rightarrow> response \<Rightarrow> ustr \<times> ustr \<times> ustr \<times> ustr" where
  "parse_response rt content_source elapsed resp =
     (let st0 = \<lparr>positive = [], negative = [], answer_text = [], raw_json_text = []\<rparr>;
          st = (case try_parse rt content_source elapsed resp st0 of
                  Inr st \<Rightarrow> st
                | Inl (e, st) \<Rightarrow>
                    st\<lparr>answer_text := ascii ''[OpenAIAsk] parse error: '' @ exn_message e @ [10]
                                        @ ascii ''HTTP '' @ str_int (status_code resp)
                                        @ ascii '' Body: '' @ body_text resp,
                       raw_json_text := body_text resp\<rparr>)
      in (positive st, negative st, answer_text st, raw_json_text st))"

text \<open>
  \<open>ask\<close> from the request on: \<open>requests.post\<close> raises or returns the reply.  The
  request itself (image, headers, URL, payload) is built before and does not reach the
  outputs.
\<close>

definition ask :: "runtime \<Rightarrow> ustr \<Rightarrow> ustr \<Rightarrow> exn + response \<Rightarrow> ustr \<times> ustr \<times> ustr \<times> ustr" where
  "ask rt content_source elapsed posted =
     (case posted of
        Inl e \<Rightarrow>
          (let err = ascii ''[OpenAIAsk] request error: '' @ exn_message e
           in ([], [], err, json_dumps rt (JDict [(ascii ''error'', JStr err)])))
      | Inr resp \<Rightarrow> parse_response rt content_source elapsed resp)"

section \<open>The specification's wording of the extractor and of the splitter's labels\<close>

text \<open>A field of a block when it holds a string, the empty string otherwise.\<close>

definition field_string :: "(ustr \<times> json) list \<Rightarrow> ustr \<Rightarrow> ustr" where
  "field_string kvs k = (case map_of kvs k of Some (JStr s) \<Rightarrow> s | _ \<Rightarrow> [])"

text \<open>The extractor on a list as the specification words it: for each mapping the first
  non-empty string among its \<open>text\<close> and \<open>content\<close> fields, the non-empty ones joined by
  newlines and the result trimmed.\<close>

fun claimed_block :: "json \<Rightarrow> ustr" where
  "claimed_block (JDict kvs) =
     first_nonempty [field_string kvs (ascii ''text''), field_string kvs (ascii ''content'')]"
| "claimed_block blk = []"

definition claimed_list_text :: "json list \<Rightarrow> ustr" where
  "claimed_list_text blks = strip (join [10] (filter (\<lambda>s. s \<noteq> []) (map claimed_block blks)))"

text \<open>What a block contributes in the program: the \<open>text\<close> field when it is true, else the
  \<open>content\<close> field, and only when that value is a string with a character that is not
  white space.\<close>

fun contributed :: "json \<Rightarrow> ustr list" where
  "contributed (JDict kvs) =
     (case py_or (dict_get kvs (ascii ''text'') JNull) (dict_get kvs (ascii ''content'') JNull) of
        JStr s \<Rightarrow> if list_ex (\<lambda>c. \<not> isspace c) s then [s] else []
      | _ \<Rightarrow> [])"
| "contributed blk = []"

text \<open>The localized negative labels of the pattern: U+8D1F U+5411, U+8D1F U+9762,
  U+907F U+514D and U+4E0D U+8981.\<close>

definition localized_negative_labels :: "ustr list" where
  "localized_negative_labels = [[0x8D1F, 0x5411], [0x8D1F, 0x9762], [0x907F, 0x514D], [0x4E0D, 0x8981]]"

section \<open>Notions used to state the properties of the matcher\<close>

text \<open>All matches of a pattern that start at index \<open>k\<close> of a string.\<close>

definition match_at :: "(nat \<Rightarrow> bool) \<Rightarrow> flags \<Rightarrow> regex list \<Rightarrow> ustr \<Rightarrow> nat \<Rightarrow> pos list" where
  "match_at W fl rs s k = rmatch_seq W fl rs (prev_of (rev (take k s)), drop k s)"

text \<open>A string of white space; a string with a colon, ASCII or full-width.\<close>

definition spaces :: "ustr \<Rightarrow> bool" where
  "spaces w = list_all isspace w"

definition is_colon :: "nat \<Rightarrow> bool" where
  "is_colon c = (c = 58 \<or> c = 0xFF1A)"

definition has_colon :: "ustr \<Rightarrow> bool" where
  "has_colon s = list_ex is_colon s"

text \<open>A string that spells a label under \<open>re.IGNORECASE\<close>.\<close>

definition spelled :: "ustr \<Rightarrow> ustr \<Rightarrow> bool" where
  "spelled lab L = list_all2 (\<lambda>l c. c \<in> set (ci_variants l)) lab L"

text \<open>Patterns without the anchors \<open>^\<close> and \<open>\b\<close>: what they match does not depend on the
  text around the match.\<close>

fun anchor_free :: "regex \<Rightarrow> bool"
  and anchor_free_seq :: "regex list \<Rightarrow> bool"
  and anchor_free_alts :: "regex list list \<Rightarrow> bool" where
  "anchor_free (Chr a) = True"
| "anchor_free (Star a) = True"
| "anchor_free (Opt a) = True"
| "anchor_free Bol = False"
| "anchor_free WordB = False"
| "anchor_free (Alt alts) = anchor_free_alts alts"
| "anchor_free_seq [] = True"
| "anchor_free_seq (r # rs) = (anchor_free r \<and> anchor_free_seq rs)"
| "anchor_free_alts [] = True"
| "anchor_free_alts (sq # alts) = (anchor_free_seq sq \<and> anchor_free_alts alts)"

text \<open>The pattern matches exactly the string \<open>u\<close>, whatever stands before and after it.\<close>

definition exact :: "(nat \<Rightarrow> bool) \<Rightarrow> flags \<Rightarrow> regex list \<Rightarrow> ustr \<Rightarrow> bool" where
  "exact W fl rs u = (\<forall>prev rest. (adv prev u, rest) \<in> set (rmatch_seq W fl rs (prev, u @ rest)))"

text \<open>A string with no white space at either end.\<close>

definition trimmed :: "ustr \<Rightarrow> bool" where
  "trimmed s = (s = [] \<or> (\<not> isspace (hd s) \<and> \<not> isspace (last s)))"

text \<open>The three constructs that end every label pattern of the splitter: \<open>\s*[:U+FF1A]\s*\<close>.\<close>

definition colon_tail :: "regex list" where
  "colon_tail = [Star Space, Chr colon, Star Space]"

text \<open>The part shared by the label patterns after their anchor: \<open>\s*(labels)\s*[:U+FF1A]\s*\<close>.\<close>

definition label_core :: "regex list list \<Rightarrow> regex list" where
  "label_core alts = [Star Space, Alt alts] @ colon_tail"

section \<open>Notions used to state the properties of the sanitizer\<close>

text \<open>
  The leading token that the sanitizer removes: optional white space, the word \<open>User\<close> in
  any case or U+7528 U+6237, optional white space, at most one colon, optional white
  space (a newline is white space).
\<close>

definition user_token :: "ustr \<Rightarrow> bool" where
  "user_token u =
     (\<exists>w1 T w2 cs w3. u = w1 @ T @ w2 @ cs @ w3 \<and> spaces w1
        \<and> (spelled (ascii ''User'') T \<or> T = [0x7528, 0x6237])
        \<and> spaces w2 \<and> (cs = [] \<or> (\<exists>c. cs = [c] \<and> is_colon c)) \<and> spaces w3)"

text \<open>The words that open the labels of the splitter, positive and negative.\<close>

definition label_words :: "ustr list" where
  "label_words =
     [ascii ''prompt'', ascii ''positive'', [0x63D0, 0x793A, 0x8BCD], [0x6B63, 0x5411],
      ascii ''negative'', ascii ''neg'', ascii ''avoid'', ascii ''disallow'', ascii ''do'',
      [0x8D1F, 0x5411], [0x8D1F, 0x9762], [0x907F, 0x514D], [0x4E0D, 0x8981]]"

text \<open>A text that begins with a label, in any case.\<close>

definition starts_with_label :: "ustr \<Rightarrow> bool" where
  "starts_with_label t = (\<exists>lab L r. lab \<in> set label_words \<and> t = L @ r \<and> spelled lab L)"

section \<open>Evaluation\<close>

lemmas pattern_defs =
  prompt_label_re_def neg_re_def pos_cleanup_re_def neg_cleanup_re_def user_re_def
  positive_labels_def positive_labels_cleanup_def negative_labels_def lits_def colon_def
  fl_is_def fl_im_def fl_i_def

lemmas engine_defs =
  re_search_def re_sub_empty_def first_end_def prev_of_def at_boundary_def at_beginning_def
  lit_match_def ci_variants_def is_word_def isspace_def

lemmas string_defs = ascii_def strip_def lstrip_def rstrip_def

lemmas split_defs =
  split_positive_negative_def trim_preamble_def split_at_negative_def cleanup_pos_def
  cleanup_neg_def cleanup_def

lemmas eval_defs =
  pattern_defs engine_defs string_defs split_defs sanitize_reasoning_text_def
  normalized_def has_positive_label_def has_negative_label_def


section \<open>What a match consumes\<close>

text \<open>The code point before a position that lies \<open>u\<close> after a position with \<open>prev\<close> before
  it is tracked by \<open>adv\<close>; every end position the matcher returns is reached by consuming a
  prefix of the remaining text.\<close>

lemma adv_Nil [simp]: "adv prev [] = prev"
  by (simp add: adv_def)

lemma adv_append [simp]: "adv (adv prev u) v = adv prev (u @ v)"
  by (simp add: adv_def)

lemma adv_Cons: "adv (Some c) u = adv prev (c # u)"
  by (simp add: adv_def)

lemma star_ends_consumed:
  "e \<in> set (star_ends fl a prev s) \<Longrightarrow> \<exists>u. s = u @ snd e \<and> fst e = adv prev u \<and> list_all (atom_match fl a) u"
proof (induction s arbitrary: prev)
  case Nil
  then show ?case by simp
next
  case (Cons c cs)
  show ?case
  proof (cases "atom_match fl a c \<and> e \<in> set (star_ends fl a (Some c) cs)")
    case True
    with Cons.IH [of "Some c"] obtain u where
      "cs = u @ snd e" "fst e = adv (Some c) u" "list_all (atom_match fl a) u" by blast
    with True have "c # cs = (c # u) @ snd e \<and> fst e = adv prev (c # u) \<and> list_all (atom_match fl a) (c # u)"
      by (simp add: adv_def)
    then show ?thesis by blast
  next
    case False
    with Cons.prems have "e = (prev, c # cs)" by (auto split: if_splits)
    then have "c # cs = [] @ snd e \<and> fst e = adv prev [] \<and> list_all (atom_match fl a) []" by simp
    then show ?thesis by blast
  qed
qed

lemma rmatch_consumed_all:
  "(\<forall>e \<in> set (rmatch W fl r p). \<exists>u. snd p = u @ snd e \<and> fst e = adv (fst p) u)"
  "(\<forall>e \<in> set (rmatch_seq W fl rs p). \<exists>u. snd p = u @ snd e \<and> fst e = adv (fst p) u)"
  "(\<forall>e \<in> set (rmatch_alts W fl alts p). \<exists>u. snd p = u @ snd e \<and> fst e = adv (fst p) u)"
proof (induction W fl r p and W fl rs p and W fl alts p rule: rmatch_rmatch_seq_rmatch_alts.induct)
  case (1 W fl a p)
  show ?case
  proof (cases "snd p")
    case Nil then show ?thesis by simp
  next
    case (Cons c cs)
    have "snd p = [c] @ cs \<and> Some c = adv (fst p) [c]" using Cons by (simp add: adv_def)
    then show ?thesis using Cons by auto
  qed
next
  case (2 W fl a p)
  show ?case using star_ends_consumed [of _ fl a "fst p" "snd p"] by auto
next
  case (3 W fl a p)
  show ?case
  proof (cases "snd p")
    case Nil then show ?thesis by simp
  next
    case (Cons c cs)
    have "snd p = [c] @ cs \<and> Some c = adv (fst p) [c]" using Cons by (simp add: adv_def)
    moreover have "snd p = [] @ snd p \<and> fst p = adv (fst p) []" by simp
    ultimately show ?thesis using Cons by auto
  qed
next
  case (4 W fl p) show ?case by simp
next
  case (5 W fl p) show ?case by simp
next
  case (6 W fl alts p) then show ?case by simp
next
  case (7 W fl p) show ?case by simp
next
  case (8 W fl r rs p)
  show ?case
  proof
    fix e assume "e \<in> set (rmatch_seq W fl (r # rs) p)"
    then obtain q where q: "q \<in> set (rmatch W fl r p)" and e: "e \<in> set (rmatch_seq W fl rs q)"
      by auto
    from "8.IH"(1) q obtain u where u: "snd p = u @ snd q" "fst q = adv (fst p) u" by blast
    from "8.IH"(2) [OF q] e obtain v where v: "snd q = v @ snd e" "fst e = adv (fst q) v" by blast
    from u v have "snd p = (u @ v) @ snd e \<and> fst e = adv (fst p) (u @ v)" by simp
    then show "\<exists>u. snd p = u @ snd e \<and> fst e = adv (fst p) u" by blast
  qed
next
  case (9 W fl p) show ?case by simp
next
  case (10 W fl sq alts p)
  then show ?case by auto
qed

lemma search_from_parts:
  "search_from W fl rs bef s = Some (b, a) \<Longrightarrow> \<exists>k m. b = rev bef @ take k s \<and> drop k s = m @ a"
proof (induction s arbitrary: bef)
  case Nil
  then show ?case
    using rmatch_consumed_all(2) [of W fl rs "(prev_of bef, [])"]
    by (auto split: list.splits)
next
  case (Cons c cs)
  show ?case
  proof (cases "rmatch_seq W fl rs (prev_of bef, c # cs)")
    case Nil
    with Cons.prems have "search_from W fl rs (c # bef) cs = Some (b, a)" by simp
    from Cons.IH [OF this] obtain k m where "b = rev (c # bef) @ take k cs" "drop k cs = m @ a" by blast
    then have "b = rev bef @ take (Suc k) (c # cs) \<and> drop (Suc k) (c # cs) = m @ a" by simp
    then show ?thesis by blast
  next
    case (Cons e es)
    with Cons.prems have ba: "b = rev bef" "a = snd e" by simp_all
    from rmatch_consumed_all(2) [of W fl rs "(prev_of bef, c # cs)"] Cons
    obtain u where "c # cs = u @ snd e" by auto
    with ba have "b = rev bef @ take 0 (c # cs) \<and> drop 0 (c # cs) = u @ a" by simp
    then show ?thesis by blast
  qed
qed

lemma re_search_parts:
  "re_search W fl rs s = Some (b, a) \<Longrightarrow> \<exists>m. s = b @ m @ a"
proof -
  assume "re_search W fl rs s = Some (b, a)"
  then obtain k m where "b = take k s" "drop k s = m @ a"
    using search_from_parts [of W fl rs "[]" s b a] by (auto simp: re_search_def)
  then have "s = b @ m @ a" by (metis append_take_drop_id)
  then show ?thesis by blast
qed


section \<open>The splitter on the documented examples\<close>

lemma split_example_prompt_negative:
  "split_positive_negative W (ascii ''Prompt: a cat\<newline>Negative: a dog'')
     = (ascii ''a cat'', ascii ''a dog'')"
  by (simp add: eval_defs)

lemma split_example_preamble:
  "split_positive_negative W (ascii ''random preamble\<newline>Positive: sunset\<newline>Avoid: blur'')
     = (ascii ''sunset'', ascii ''blur'')"
  by (simp add: eval_defs)

lemma split_example_plain:
  "split_positive_negative W (ascii ''just a plain sentence'') = (ascii ''just a plain sentence'', [])"
  by (simp add: eval_defs)

lemma split_example_empty: "split_positive_negative W [] = ([], [])"
  by (simp add: split_positive_negative_def)

lemma no_negative_label_in_empty: "\<not> has_negative_label W []"
  by (simp add: eval_defs)

lemma normalized_empty: "normalized [] = []"
  by (simp add: eval_defs)

lemma split_without_positive_label:
  assumes "\<not> has_positive_label W (normalized text)"
    and "has_negative_label W (normalized text)"
  shows "\<exists>bef m aft. normalized text = bef @ m @ aft
           \<and> re_search W fl_im neg_re (normalized text) = Some (bef, aft)
           \<and> split_positive_negative W text = (cleanup_pos W (strip bef), cleanup_neg W (strip aft))"
proof -
  from assms(2) obtain bef aft where m: "re_search W fl_im neg_re (normalized text) = Some (bef, aft)"
    by (auto simp: has_negative_label_def)
  from re_search_parts [OF m] obtain mid where parts: "normalized text = bef @ mid @ aft" by blast
  have ne: "text \<noteq> []"
    using assms(2) normalized_empty no_negative_label_in_empty by auto
  from assms(1) have "trim_preamble W (normalized text) = normalized text"
    by (auto simp: has_positive_label_def trim_preamble_def split: option.splits)
  with ne m have "split_positive_negative W text = (cleanup_pos W (strip bef), cleanup_neg W (strip aft))"
    by (simp add: split_positive_negative_def normalized_def split_at_negative_def cleanup_def)
  with parts m show ?thesis by blast
qed

text \<open>
  C1. On the documented inputs the splitter returns the documented pairs:
  "Prompt: a cat\nNegative: a dog" gives ("a cat", "a dog"); "random preamble\nPositive:
  sunset\nAvoid: blur" gives ("sunset", "blur"), the preamble discarded; "just a plain
  sentence" gives itself and ""; "" gives ("", "").  And for every text with a negative
  label and no positive label, step 2 splits the whole normalised text at the first
  negative label: the two parts returned are the cleaned-up text before the label and the
  cleaned-up text after it.
\<close>

theorem C1_split_examples:
  "split_positive_negative W (ascii ''Prompt: a cat\<newline>Negative: a dog'')
     = (ascii ''a cat'', ascii ''a dog'')
   \<and> split_positive_negative W (ascii ''random preamble\<newline>Positive: sunset\<newline>Avoid: blur'')
     = (ascii ''sunset'', ascii ''blur'')
   \<and> split_positive_negative W (ascii ''just a plain sentence'') = (ascii ''just a plain sentence'', [])
   \<and> split_positive_negative W [] = ([], [])
   \<and> (\<not> has_positive_label W (normalized text) \<and> has_negative_label W (normalized text) \<longrightarrow>
        (\<exists>bef m aft. normalized text = bef @ m @ aft
           \<and> re_search W fl_im neg_re (normalized text) = Some (bef, aft)
           \<and> split_positive_negative W text = (cleanup_pos W (strip bef), cleanup_neg W (strip aft))))"
  using split_example_prompt_negative split_example_preamble split_example_plain
    split_example_empty split_without_positive_label
  by blast

lemma avoid_blur_labels:
  "\<not> has_positive_label (\<lambda>c. False) (normalized (ascii ''Avoid: blur, noise''))"
  "has_negative_label (\<lambda>c. False) (normalized (ascii ''Avoid: blur, noise''))"
  by (simp_all add: eval_defs)

theorem C1_split_examples_witness:
  "\<not> has_positive_label (\<lambda>c. False) (normalized (ascii ''Avoid: blur, noise''))
   \<and> has_negative_label (\<lambda>c. False) (normalized (ascii ''Avoid: blur, noise''))
   \<and> (\<exists>bef m aft. normalized (ascii ''Avoid: blur, noise'') = bef @ m @ aft
           \<and> re_search (\<lambda>c. False) fl_im neg_re (normalized (ascii ''Avoid: blur, noise'')) = Some (bef, aft)
           \<and> split_positive_negative (\<lambda>c. False) (ascii ''Avoid: blur, noise'')
               = (cleanup_pos (\<lambda>c. False) (strip bef), cleanup_neg (\<lambda>c. False) (strip aft)))"
  using C1_split_examples [of "\<lambda>c. False" "ascii ''Avoid: blur, noise''"] avoid_blur_labels
  by blast

section \<open>Searching, and what the patterns match\<close>

lemma prev_of_snoc: "prev_of (rev (take (Suc j) (c # cs)) @ bef) = prev_of (rev (take j cs) @ c # bef)"
  by simp

lemma search_from_None_iff:
  "search_from W fl rs bef s = None \<longleftrightarrow>
     (\<forall>j \<le> length s. rmatch_seq W fl rs (prev_of (rev (take j s) @ bef), drop j s) = [])"
proof (induction s arbitrary: bef)
  case Nil
  show ?case by (simp split: list.splits)
next
  case (Cons c cs)
  show ?case
  proof (cases "rmatch_seq W fl rs (prev_of bef, c # cs)")
    case Nil
    have "(\<forall>j \<le> length (c # cs). rmatch_seq W fl rs (prev_of (rev (take j (c # cs)) @ bef), drop j (c # cs)) = [])
          \<longleftrightarrow> (\<forall>j \<le> length cs. rmatch_seq W fl rs (prev_of (rev (take j cs) @ c # bef), drop j cs) = [])"
      (is "?L \<longleftrightarrow> ?R")
    proof
      assume L: ?L
      show ?R
      proof (intro allI impI)
        fix j assume "j \<le> length cs"
        with L have "rmatch_seq W fl rs (prev_of (rev (take (Suc j) (c # cs)) @ bef), drop (Suc j) (c # cs)) = []"
          by (metis Suc_le_mono length_Cons)
        then show "rmatch_seq W fl rs (prev_of (rev (take j cs) @ c # bef), drop j cs) = []" by simp
      qed
    next
      assume R: ?R
      show ?L
      proof (intro allI impI)
        fix j assume j: "j \<le> length (c # cs)"
        show "rmatch_seq W fl rs (prev_of (rev (take j (c # cs)) @ bef), drop j (c # cs)) = []"
        proof (cases j)
          case 0 then show ?thesis using Nil by simp
        next
          case (Suc i)
          with j R have "rmatch_seq W fl rs (prev_of (rev (take i cs) @ c # bef), drop i cs) = []" by simp
          with Suc show ?thesis by simp
        qed
      qed
    qed
    with Nil Cons.IH [of "c # bef"] show ?thesis by simp
  next
    case (Cons e es)
    then have "search_from W fl rs bef (c # cs) \<noteq> None" by simp
    moreover have "\<not> (\<forall>j \<le> length (c # cs). rmatch_seq W fl rs (prev_of (rev (take j (c # cs)) @ bef), drop j (c # cs)) = [])"
      using Cons by (auto intro!: exI [of _ 0])
    ultimately show ?thesis by blast
  qed
qed

lemma search_from_Some_iff:
  "search_from W fl rs bef s = Some (b, a) \<longleftrightarrow>
     (\<exists>j \<le> length s.
        (\<forall>i < j. rmatch_seq W fl rs (prev_of (rev (take i s) @ bef), drop i s) = [])
        \<and> rmatch_seq W fl rs (prev_of (rev (take j s) @ bef), drop j s) \<noteq> []
        \<and> b = rev bef @ take j s
        \<and> a = snd (hd (rmatch_seq W fl rs (prev_of (rev (take j s) @ bef), drop j s))))"
proof (induction s arbitrary: bef)
  case Nil
  show ?case by (auto split: list.splits)
next
  case (Cons c cs)
  let ?M = "\<lambda>bef s i. rmatch_seq W fl rs (prev_of (rev (take i s) @ bef), drop i s)"
  show ?case
  proof (cases "rmatch_seq W fl rs (prev_of bef, c # cs)")
    case Nil
    have shift: "\<And>i. ?M bef (c # cs) (Suc i) = ?M (c # bef) cs i" by simp
    have zero: "?M bef (c # cs) 0 = []" using Nil by simp
    have "(\<exists>j \<le> length (c # cs). (\<forall>i < j. ?M bef (c # cs) i = []) \<and> ?M bef (c # cs) j \<noteq> []
              \<and> b = rev bef @ take j (c # cs) \<and> a = snd (hd (?M bef (c # cs) j)))
          \<longleftrightarrow> (\<exists>j \<le> length cs. (\<forall>i < j. ?M (c # bef) cs i = []) \<and> ?M (c # bef) cs j \<noteq> []
              \<and> b = rev (c # bef) @ take j cs \<and> a = snd (hd (?M (c # bef) cs j)))"
      (is "?L \<longleftrightarrow> ?R")
    proof
      assume ?L
      then obtain j where j: "j \<le> length (c # cs)" "\<forall>i < j. ?M bef (c # cs) i = []"
        "?M bef (c # cs) j \<noteq> []" "b = rev bef @ take j (c # cs)" "a = snd (hd (?M bef (c # cs) j))"
        by blast
      from j(3) zero obtain k where k: "j = Suc k" by (cases j) auto
      have "\<forall>i < k. ?M (c # bef) cs i = []"
      proof (intro allI impI)
        fix i assume "i < k"
        then have "?M bef (c # cs) (Suc i) = []" using j(2) k by blast
        then show "?M (c # bef) cs i = []" by simp
      qed
      moreover have "k \<le> length cs" using j(1) k by simp
      moreover have "?M (c # bef) cs k \<noteq> []" using j(3) k by simp
      moreover have "b = rev (c # bef) @ take k cs" using j(4) k by simp
      moreover have "a = snd (hd (?M (c # bef) cs k))" using j(5) k by simp
      ultimately show ?R by blast
    next
      assume ?R
      then obtain k where k: "k \<le> length cs" "\<forall>i < k. ?M (c # bef) cs i = []"
        "?M (c # bef) cs k \<noteq> []" "b = rev (c # bef) @ take k cs" "a = snd (hd (?M (c # bef) cs k))"
        by blast
      have "\<forall>i < Suc k. ?M bef (c # cs) i = []"
      proof (intro allI impI)
        fix i assume i: "i < Suc k"
        show "?M bef (c # cs) i = []"
        proof (cases i)
          case 0 then show ?thesis using zero by simp
        next
          case (Suc i')
          then have "?M (c # bef) cs i' = []" using k(2) i by simp
          then show ?thesis using Suc by simp
        qed
      qed
      moreover have "Suc k \<le> length (c # cs)" using k(1) by simp
      moreover have "?M bef (c # cs) (Suc k) \<noteq> []" using k(3) by simp
      moreover have "b = rev bef @ take (Suc k) (c # cs)" using k(4) by simp
      moreover have "a = snd (hd (?M bef (c # cs) (Suc k)))" using k(5) by simp
      ultimately show ?L by blast
    qed
    with Nil Cons.IH [of "c # bef"] show ?thesis by simp
  next
    case (Cons e es)
    have "(\<exists>j \<le> length (c # cs). (\<forall>i < j. ?M bef (c # cs) i = []) \<and> ?M bef (c # cs) j \<noteq> []
              \<and> b = rev bef @ take j (c # cs) \<and> a = snd (hd (?M bef (c # cs) j)))
          \<longleftrightarrow> (b = rev bef \<and> a = snd e)" (is "?L \<longleftrightarrow> ?R")
    proof
      assume ?L
      then obtain j where j: "\<forall>i < j. ?M bef (c # cs) i = []"
        "b = rev bef @ take j (c # cs)" "a = snd (hd (?M bef (c # cs) j))" by blast
      have "j = 0"
      proof (rule ccontr)
        assume "j \<noteq> 0"
        then have "?M bef (c # cs) 0 = []" using j(1) by blast
        then show False using Cons by simp
      qed
      with j Cons show ?R by simp
    next
      assume ?R
      then have "(\<forall>i < (0::nat). ?M bef (c # cs) i = []) \<and> ?M bef (c # cs) 0 \<noteq> []
              \<and> b = rev bef @ take 0 (c # cs) \<and> a = snd (hd (?M bef (c # cs) 0))"
        using Cons by simp
      then show ?L by blast
    qed
    with Cons show ?thesis by auto
  qed
qed

lemma re_search_None_iff:
  "re_search W fl rs s = None \<longleftrightarrow> (\<forall>j \<le> length s. match_at W fl rs s j = [])"
  by (simp add: re_search_def match_at_def search_from_None_iff)

lemma re_search_Some_iff:
  "re_search W fl rs s = Some (b, a) \<longleftrightarrow>
     (\<exists>j \<le> length s. (\<forall>i < j. match_at W fl rs s i = []) \<and> match_at W fl rs s j \<noteq> []
         \<and> b = take j s \<and> a = snd (hd (match_at W fl rs s j)))"
  by (simp add: re_search_def match_at_def search_from_Some_iff)

lemma atom_match_colon [simp]: "atom_match fl colon c = is_colon c"
  by (auto simp: colon_def is_colon_def lit_match_def ci_variants_def)

lemma star_ends_intro:
  "list_all (atom_match fl a) u \<Longrightarrow> (adv prev u, rest) \<in> set (star_ends fl a prev (u @ rest))"
proof (induction u arbitrary: prev)
  case Nil
  show ?case by (cases rest) simp_all
next
  case (Cons c u)
  then have "(adv (Some c) u, rest) \<in> set (star_ends fl a (Some c) (u @ rest))" by simp
  moreover have "adv (Some c) u = adv prev (c # u)" by (simp add: adv_def)
  ultimately show ?case using Cons.prems by simp
qed

lemma in_star_ends_iff:
  "e \<in> set (star_ends fl a prev s) \<longleftrightarrow>
     (\<exists>u. s = u @ snd e \<and> fst e = adv prev u \<and> list_all (atom_match fl a) u)"
proof
  assume "e \<in> set (star_ends fl a prev s)"
  then show "\<exists>u. s = u @ snd e \<and> fst e = adv prev u \<and> list_all (atom_match fl a) u"
    by (rule star_ends_consumed)
next
  assume "\<exists>u. s = u @ snd e \<and> fst e = adv prev u \<and> list_all (atom_match fl a) u"
  then obtain u where u: "s = u @ snd e" "fst e = adv prev u" "list_all (atom_match fl a) u" by blast
  from star_ends_intro [OF u(3), of prev "snd e"] u(1,2)
  show "e \<in> set (star_ends fl a prev s)" by (metis prod.collapse)
qed

lemma star_ends_nonempty [simp]: "star_ends fl a prev s \<noteq> []"
  by (induction s arbitrary: prev) auto

lemma set_rmatch_seq_Cons:
  "set (rmatch_seq W fl (r # rs) p) = (\<Union>q \<in> set (rmatch W fl r p). set (rmatch_seq W fl rs q))"
  by simp

lemma set_rmatch_seq_append:
  "set (rmatch_seq W fl (rs @ rs') p) = (\<Union>q \<in> set (rmatch_seq W fl rs p). set (rmatch_seq W fl rs' q))"
  by (induction rs arbitrary: p) auto

lemma set_rmatch_alts:
  "set (rmatch_alts W fl alts p) = (\<Union>sq \<in> set alts. set (rmatch_seq W fl sq p))"
  by (induction alts) auto

lemma rmatch_consumed:
  "e \<in> set (rmatch W fl r p) \<Longrightarrow> \<exists>u. snd p = u @ snd e \<and> fst e = adv (fst p) u"
  using rmatch_consumed_all(1) by blast

lemma rmatch_seq_consumed:
  "e \<in> set (rmatch_seq W fl rs p) \<Longrightarrow> \<exists>u. snd p = u @ snd e \<and> fst e = adv (fst p) u"
  using rmatch_consumed_all(2) by blast

lemma in_rmatch_Chr_iff:
  "e \<in> set (rmatch W fl (Chr a) p) \<longleftrightarrow> (\<exists>c. snd p = c # snd e \<and> fst e = Some c \<and> atom_match fl a c)"
  by (cases "snd p") (auto simp: prod_eq_iff)

lemma in_rmatch_seq_lits_iff:
  "e \<in> set (rmatch_seq W fl (lits lab @ rs) (prev, t)) \<longleftrightarrow>
     (\<exists>L t'. t = L @ t' \<and> list_all2 (lit_match fl) lab L \<and> e \<in> set (rmatch_seq W fl rs (adv prev L, t')))"
proof (induction lab arbitrary: prev t)
  case Nil
  show ?case by (simp add: lits_def)
next
  case (Cons l lab)
  have "e \<in> set (rmatch_seq W fl (lits (l # lab) @ rs) (prev, t)) \<longleftrightarrow>
        (\<exists>c t1. t = c # t1 \<and> lit_match fl l c \<and> e \<in> set (rmatch_seq W fl (lits lab @ rs) (Some c, t1)))"
    by (cases t) (auto simp: lits_def)
  also have "\<dots> \<longleftrightarrow> (\<exists>c t1. t = c # t1 \<and> lit_match fl l c \<and>
        (\<exists>L t'. t1 = L @ t' \<and> list_all2 (lit_match fl) lab L \<and> e \<in> set (rmatch_seq W fl rs (adv (Some c) L, t'))))"
    using Cons.IH by simp
  also have "\<dots> \<longleftrightarrow> (\<exists>L t'. t = L @ t' \<and> list_all2 (lit_match fl) (l # lab) L
        \<and> e \<in> set (rmatch_seq W fl rs (adv prev L, t')))" (is "?A \<longleftrightarrow> ?B")
  proof
    assume ?A
    then obtain c t1 L t' where h: "t = c # t1" "lit_match fl l c" "t1 = L @ t'"
      "list_all2 (lit_match fl) lab L" "e \<in> set (rmatch_seq W fl rs (adv (Some c) L, t'))" by blast
    have "adv (Some c) L = adv prev (c # L)" by (simp add: adv_def)
    with h have "t = (c # L) @ t' \<and> list_all2 (lit_match fl) (l # lab) (c # L)
        \<and> e \<in> set (rmatch_seq W fl rs (adv prev (c # L), t'))" by simp
    then show ?B by blast
  next
    assume ?B
    then obtain L t' where h: "t = L @ t'" "list_all2 (lit_match fl) (l # lab) L"
      "e \<in> set (rmatch_seq W fl rs (adv prev L, t'))" by blast
    from h(2) obtain c L' where L: "L = c # L'" "lit_match fl l c" "list_all2 (lit_match fl) lab L'"
      by (auto simp: list_all2_Cons1)
    have "adv (Some c) L' = adv prev (c # L')" by (simp add: adv_def)
    with h L have "t = c # (L' @ t') \<and> lit_match fl l c \<and> L' @ t' = L' @ t' \<and> list_all2 (lit_match fl) lab L'
        \<and> e \<in> set (rmatch_seq W fl rs (adv (Some c) L', t'))" by simp
    then show ?A by blast
  qed
  finally show ?case .
qed

lemma in_tail_iff:
  "e \<in> set (rmatch_seq W fl [Star Space, Chr colon, Star Space] (prev, t)) \<longleftrightarrow>
     (\<exists>w2 c w3. t = w2 @ c # w3 @ snd e \<and> spaces w2 \<and> is_colon c \<and> spaces w3
                 \<and> fst e = adv (Some c) w3)"
proof
  assume "e \<in> set (rmatch_seq W fl [Star Space, Chr colon, Star Space] (prev, t))"
  then obtain q1 q2 where q: "q1 \<in> set (star_ends fl Space prev t)"
    "q2 \<in> set (rmatch W fl (Chr colon) q1)" "e \<in> set (star_ends fl Space (fst q2) (snd q2))"
    by auto
  from q(1) obtain w2 where w2: "t = w2 @ snd q1" "list_all (atom_match fl Space) w2"
    by (auto simp: in_star_ends_iff)
  from q(2) have "\<exists>c. snd q1 = c # snd q2 \<and> fst q2 = Some c \<and> atom_match fl colon c"
    by (simp only: in_rmatch_Chr_iff)
  then obtain c where c: "snd q1 = c # snd q2" "fst q2 = Some c" "is_colon c"
    by auto
  from q(3) obtain w3 where w3: "snd q2 = w3 @ snd e" "fst e = adv (fst q2) w3" "list_all (atom_match fl Space) w3"
    by (auto simp: in_star_ends_iff)
  have "list_all isspace w2" "list_all isspace w3" using w2(2) w3(3) by (simp_all add: list_all_iff)
  with w2 c w3 have "t = w2 @ c # w3 @ snd e \<and> spaces w2 \<and> is_colon c \<and> spaces w3 \<and> fst e = adv (Some c) w3"
    by (simp add: spaces_def)
  then show "\<exists>w2 c w3. t = w2 @ c # w3 @ snd e \<and> spaces w2 \<and> is_colon c \<and> spaces w3 \<and> fst e = adv (Some c) w3"
    by blast
next
  assume "\<exists>w2 c w3. t = w2 @ c # w3 @ snd e \<and> spaces w2 \<and> is_colon c \<and> spaces w3 \<and> fst e = adv (Some c) w3"
  then obtain w2 c w3 where h: "t = w2 @ c # w3 @ snd e" "spaces w2" "is_colon c" "spaces w3"
    "fst e = adv (Some c) w3" by blast
  have a2: "list_all (atom_match fl Space) w2" and a3: "list_all (atom_match fl Space) w3"
    using h(2,4) by (simp_all add: spaces_def list_all_iff)
  have 1: "(adv prev w2, c # w3 @ snd e) \<in> set (star_ends fl Space prev t)"
    using star_ends_intro [OF a2, of prev "c # w3 @ snd e"] h(1) by simp
  have 2: "(Some c, w3 @ snd e) \<in> set (rmatch W fl (Chr colon) (adv prev w2, c # w3 @ snd e))"
    using h(3) by simp
  have 3: "(adv (Some c) w3, snd e) \<in> set (star_ends fl Space (Some c) (w3 @ snd e))"
    using star_ends_intro [OF a3] by simp
  have "e = (adv (Some c) w3, snd e)" using h(5) by (simp add: prod_eq_iff)
  with 1 2 3 show "e \<in> set (rmatch_seq W fl [Star Space, Chr colon, Star Space] (prev, t))"
    by (auto intro!: bexI)
qed

lemma seq_exact_from_elems:
  assumes elems: "\<And>r p e u prev' rest'. r \<in> set rs \<Longrightarrow> anchor_free r \<Longrightarrow> e \<in> set (rmatch W fl r p)
            \<Longrightarrow> snd p = u @ snd e \<Longrightarrow> (adv prev' u, rest') \<in> set (rmatch W fl r (prev', u @ rest'))"
  shows "anchor_free_seq rs \<Longrightarrow> e \<in> set (rmatch_seq W fl rs p) \<Longrightarrow> snd p = u @ snd e
            \<Longrightarrow> (adv prev' u, rest') \<in> set (rmatch_seq W fl rs (prev', u @ rest'))"
  using elems
proof (induction rs arbitrary: p e u prev' rest')
  case Nil
  then show ?case by simp
next
  case (Cons r rs)
  from Cons.prems(2) obtain q where q: "q \<in> set (rmatch W fl r p)" "e \<in> set (rmatch_seq W fl rs q)"
    by auto
  from rmatch_consumed [OF q(1)] obtain u1 where u1: "snd p = u1 @ snd q" by blast
  from rmatch_seq_consumed [OF q(2)] obtain u2 where u2: "snd q = u2 @ snd e" by blast
  from u1 u2 Cons.prems(3) have u: "u = u1 @ u2" by simp
  have af: "anchor_free r" "anchor_free_seq rs" using Cons.prems(1) by simp_all
  have 1: "(adv prev' u1, u2 @ rest') \<in> set (rmatch W fl r (prev', u1 @ (u2 @ rest')))"
    using Cons.prems(4) [of r q p u1 prev' "u2 @ rest'"] af(1) q(1) u1 by simp
  have 2: "(adv (adv prev' u1) u2, rest') \<in> set (rmatch_seq W fl rs (adv prev' u1, u2 @ rest'))"
  proof (rule Cons.IH [OF af(2) q(2) u2])
    fix r' p' e' u' prev'' rest''
    assume "r' \<in> set rs" "anchor_free r'" "e' \<in> set (rmatch W fl r' p')" "snd p' = u' @ snd e'"
    then show "(adv prev'' u', rest'') \<in> set (rmatch W fl r' (prev'', u' @ rest''))"
      using Cons.prems(4) [of r' e' p' u' prev'' rest''] by simp
  qed
  from 1 2 u show ?case by (auto intro!: bexI [of _ "(adv prev' u1, u2 @ rest')"])
qed

lemma anchor_free_alts_iff: "anchor_free_alts alts \<longleftrightarrow> (\<forall>sq \<in> set alts. anchor_free_seq sq)"
  by (induction alts) auto

lemma anchor_free_seq_iff: "anchor_free_seq rs \<longleftrightarrow> (\<forall>r \<in> set rs. anchor_free r)"
  by (induction rs) auto

lemma anchor_free_context:
  "anchor_free r \<Longrightarrow> e \<in> set (rmatch W fl r p) \<Longrightarrow> snd p = u @ snd e
     \<Longrightarrow> (adv prev' u, rest') \<in> set (rmatch W fl r (prev', u @ rest'))"
proof (induction r arbitrary: p e u prev' rest')
  case (Chr a)
  from Chr.prems(2) have "\<exists>c. snd p = c # snd e \<and> fst e = Some c \<and> atom_match fl a c"
    by (simp only: in_rmatch_Chr_iff)
  then obtain c where c: "snd p = c # snd e" "atom_match fl a c" by blast
  with Chr.prems(3) have "u = [c]" by simp
  with c show ?case by (simp add: adv_def)
next
  case (Star a)
  from Star.prems(2) obtain v where v: "snd p = v @ snd e" "list_all (atom_match fl a) v"
    by (auto simp: in_star_ends_iff)
  with Star.prems(3) have "u = v" by simp
  with v star_ends_intro [of fl a u prev' rest'] show ?case by simp
next
  case (Opt a)
  show ?case
  proof (cases "snd p")
    case Nil
    with Opt.prems have "u = []" by simp
    then show ?thesis by (cases rest') simp_all
  next
    case (Cons c cs)
    show ?thesis
    proof (cases "snd e = snd p")
      case True
      with Opt.prems(3) have "u = []" by simp
      then show ?thesis by (cases rest') simp_all
    next
      case False
      with Opt.prems(2) Cons have e: "atom_match fl a c" "snd e = cs" by (auto split: if_splits)
      with Opt.prems(3) Cons have "u = [c]" by simp
      with e show ?thesis by (simp add: adv_def)
    qed
  qed
next
  case Bol
  then show ?case by simp
next
  case WordB
  then show ?case by simp
next
  case (Alt alts)
  from Alt.prems(2) obtain sq where sq: "sq \<in> set alts" "e \<in> set (rmatch_seq W fl sq p)"
    by (auto simp: set_rmatch_alts)
  have af: "anchor_free_seq sq" using Alt.prems(1) sq(1) by (simp add: anchor_free_alts_iff)
  have "(adv prev' u, rest') \<in> set (rmatch_seq W fl sq (prev', u @ rest'))"
  proof (rule seq_exact_from_elems [OF _ af sq(2) Alt.prems(3)])
    fix r' p' e' u' prev'' rest''
    assume "r' \<in> set sq" "anchor_free r'" "e' \<in> set (rmatch W fl r' p')" "snd p' = u' @ snd e'"
    then show "(adv prev'' u', rest'') \<in> set (rmatch W fl r' (prev'', u' @ rest''))"
      using Alt.IH [OF sq(1)] by blast
  qed
  with sq(1) show ?case by (auto simp: set_rmatch_alts)
qed

lemma anchor_free_seq_context:
  assumes "anchor_free_seq rs" and "e \<in> set (rmatch_seq W fl rs p)" and "snd p = u @ snd e"
  shows "(adv prev' u, rest') \<in> set (rmatch_seq W fl rs (prev', u @ rest'))"
  using seq_exact_from_elems [OF _ assms] anchor_free_context by blast

lemma set_rmatch_seq_WordB:
  "set (rmatch_seq W fl (WordB # rs) p) = (if at_boundary W p then set (rmatch_seq W fl rs p) else {})"
  by simp

lemma set_rmatch_seq_Bol:
  "set (rmatch_seq W fl (Bol # rs) p) = (if at_beginning fl p then set (rmatch_seq W fl rs p) else {})"
  by simp

lemma set_rmatch_seq_Alt:
  "set (rmatch_seq W fl (Alt alts # rs) p)
     = (\<Union>sq \<in> set alts. \<Union>q \<in> set (rmatch_seq W fl sq p). set (rmatch_seq W fl rs q))"
  by (simp add: set_rmatch_alts)

lemma lits_intro:
  assumes "list_all2 (lit_match fl) lab L"
  shows "(adv prev L, t) \<in> set (rmatch_seq W fl (lits lab) (prev, L @ t))"
  using in_rmatch_seq_lits_iff [of "(adv prev L, t)" W fl lab "[]" prev "L @ t"] assms
  by auto

lemma in_neg_re_iff:
  "e \<in> set (rmatch_seq W fl neg_re p) \<longleftrightarrow>
     at_boundary W p \<and>
     (\<exists>sq \<in> set negative_labels. \<exists>q \<in> set (rmatch_seq W fl sq p).
        e \<in> set (rmatch_seq W fl [Star Space, Chr colon, Star Space] q))"
  unfolding neg_re_def set_rmatch_seq_WordB set_rmatch_seq_Alt by auto

lemma match_at_append_Cons:
  "match_at W fl rs (b @ c # t) (Suc (length b)) = rmatch_seq W fl rs (Some c, t)"
  by (simp add: match_at_def prev_of_def)

lemma match_at_0: "match_at W fl rs s 0 = rmatch_seq W fl rs (None, s)"
  by (simp add: match_at_def prev_of_def)

section \<open>Trimming, colons, and substitution where nothing matches\<close>

subsection \<open>Trimming\<close>

lemma lstrip_id: "s = [] \<or> \<not> isspace (hd s) \<Longrightarrow> lstrip s = s"
  by (cases s) (auto simp: lstrip_def)

lemma rstrip_id: "s = [] \<or> \<not> isspace (last s) \<Longrightarrow> rstrip s = s"
proof (cases "s = []")
  case True then show ?thesis by (simp add: rstrip_def)
next
  case False
  assume "s = [] \<or> \<not> isspace (last s)"
  with False have "\<not> isspace (hd (rev s))" by (simp add: hd_rev)
  moreover have "rev s \<noteq> []" using False by simp
  ultimately have "dropWhile isspace (rev s) = rev s" by (cases "rev s") auto
  then show ?thesis by (simp add: rstrip_def)
qed

lemma lstrip_hd: "lstrip s \<noteq> [] \<Longrightarrow> \<not> isspace (hd (lstrip s))"
  unfolding lstrip_def by (metis hd_dropWhile)

lemma rstrip_last: "rstrip s \<noteq> [] \<Longrightarrow> \<not> isspace (last (rstrip s))"
proof -
  assume ne: "rstrip s \<noteq> []"
  then have "dropWhile isspace (rev s) \<noteq> []" by (simp add: rstrip_def)
  then have "\<not> isspace (hd (dropWhile isspace (rev s)))" by (metis hd_dropWhile)
  then show ?thesis using ne by (simp add: rstrip_def last_rev)
qed

lemma rstrip_prefix: "\<exists>z. s = rstrip s @ z \<and> spaces z"
proof -
  have "rev s = takeWhile isspace (rev s) @ dropWhile isspace (rev s)" by simp
  then have "s = rev (dropWhile isspace (rev s)) @ rev (takeWhile isspace (rev s))"
    by (metis rev_append rev_rev_ident)
  moreover have "spaces (rev (takeWhile isspace (rev s)))"
    by (auto simp: spaces_def list_all_iff dest: set_takeWhileD)
  ultimately show ?thesis unfolding rstrip_def by blast
qed

lemma lstrip_suffix: "\<exists>x. s = x @ lstrip s \<and> spaces x"
proof -
  have "s = takeWhile isspace s @ dropWhile isspace s" by simp
  moreover have "spaces (takeWhile isspace s)"
    by (auto simp: spaces_def list_all_iff dest: set_takeWhileD)
  ultimately show ?thesis unfolding lstrip_def by blast
qed

lemma strip_decomp: "\<exists>x z. s = x @ strip s @ z \<and> spaces x \<and> spaces z"
proof -
  from lstrip_suffix obtain x where x: "s = x @ lstrip s" "spaces x" by blast
  from rstrip_prefix [of "lstrip s"] obtain z where z: "lstrip s = rstrip (lstrip s) @ z" "spaces z" by blast
  from x z have "s = x @ strip s @ z" by (simp add: strip_def)
  with x z show ?thesis by blast
qed

lemma trimmed_strip: "trimmed (strip s)"
proof (cases "strip s = []")
  case True then show ?thesis by (simp add: trimmed_def)
next
  case False
  then have l: "\<not> isspace (last (strip s))" unfolding strip_def by (rule rstrip_last)
  from rstrip_prefix [of "lstrip s"] obtain z where z: "lstrip s = strip s @ z" by (auto simp: strip_def)
  with False have "lstrip s \<noteq> []" by auto
  then have "\<not> isspace (hd (lstrip s))" by (rule lstrip_hd)
  with z False have "\<not> isspace (hd (strip s))" by (metis hd_append2)
  with l show ?thesis by (simp add: trimmed_def)
qed

lemma strip_trimmed: "trimmed s \<Longrightarrow> strip s = s"
  unfolding trimmed_def strip_def
  by (metis lstrip_id rstrip_id)

lemma strip_strip [simp]: "strip (strip s) = strip s"
  by (rule strip_trimmed [OF trimmed_strip])

lemma strip_Nil [simp]: "strip [] = []"
  by (simp add: strip_def lstrip_def rstrip_def)

subsection \<open>Colons\<close>

lemma has_colon_append [simp]: "has_colon (a @ b) \<longleftrightarrow> has_colon a \<or> has_colon b"
  by (auto simp: has_colon_def list_ex_iff)

lemma has_colon_Cons [simp]: "has_colon (c # s) \<longleftrightarrow> is_colon c \<or> has_colon s"
  by (simp add: has_colon_def)

lemma has_colon_Nil [simp]: "\<not> has_colon []"
  by (simp add: has_colon_def)

lemma has_colon_drop: "has_colon (drop k s) \<Longrightarrow> has_colon s"
  by (metis append_take_drop_id has_colon_append)

lemma has_colon_replace_crlf: "has_colon (replace_crlf s) \<Longrightarrow> has_colon s"
  by (induction s rule: replace_crlf.induct) (auto split: if_splits simp: is_colon_def)

lemma has_colon_strip: "has_colon (strip s) \<Longrightarrow> has_colon s"
  using strip_decomp [of s] by (metis has_colon_append)

lemma has_colon_lstrip: "has_colon (lstrip s) \<Longrightarrow> has_colon s"
  using lstrip_suffix [of s] by (metis has_colon_append)

lemma has_colon_normalized: "has_colon (normalized s) \<Longrightarrow> has_colon s"
  unfolding normalized_def by (metis has_colon_strip has_colon_replace_crlf)

lemma colon_tail_consumes_colon:
  assumes "e \<in> set (rmatch_seq W fl (pre @ colon_tail) p)"
  shows "\<exists>u. snd p = u @ snd e \<and> has_colon u"
proof -
  from assms obtain q where q: "q \<in> set (rmatch_seq W fl pre p)" "e \<in> set (rmatch_seq W fl colon_tail q)"
    by (auto simp: set_rmatch_seq_append)
  from rmatch_seq_consumed [OF q(1)] obtain u0 where u0: "snd p = u0 @ snd q" by blast
  from q(2) have "e \<in> set (rmatch_seq W fl [Star Space, Chr colon, Star Space] (fst q, snd q))"
    by (simp add: colon_tail_def)
  then obtain w2 c w3 where t: "snd q = w2 @ c # w3 @ snd e" "is_colon c"
    unfolding in_tail_iff by blast
  from u0 t have "snd p = (u0 @ w2 @ c # w3) @ snd e \<and> has_colon (u0 @ w2 @ c # w3)" by simp
  then show ?thesis by blast
qed

lemma colon_free_no_match:
  assumes "\<not> has_colon t"
  shows "rmatch_seq W fl (pre @ colon_tail) (prev, t) = []"
proof (rule ccontr)
  assume "rmatch_seq W fl (pre @ colon_tail) (prev, t) \<noteq> []"
  then obtain e where "e \<in> set (rmatch_seq W fl (pre @ colon_tail) (prev, t))"
    by (cases "rmatch_seq W fl (pre @ colon_tail) (prev, t)") auto
  from colon_tail_consumes_colon [OF this] assms show False by auto
qed

lemma prompt_label_re_tail: "prompt_label_re = [Alt [[Bol], [Chr (Lit 10)]], Star Space, Alt positive_labels] @ colon_tail"
  by (simp add: prompt_label_re_def colon_tail_def)

lemma neg_re_tail: "neg_re = [WordB, Alt negative_labels] @ colon_tail"
  by (simp add: neg_re_def colon_tail_def)

lemma pos_cleanup_re_tail: "pos_cleanup_re = [Bol, Star Space, Alt positive_labels_cleanup] @ colon_tail"
  by (simp add: pos_cleanup_re_def colon_tail_def)

lemma neg_cleanup_re_tail: "neg_cleanup_re = [Bol, Star Space, Alt negative_labels] @ colon_tail"
  by (simp add: neg_cleanup_re_def colon_tail_def)

lemmas label_patterns_tail = prompt_label_re_tail neg_re_tail pos_cleanup_re_tail neg_cleanup_re_tail

lemma colon_free_match_at:
  assumes "\<not> has_colon s"
  shows "match_at W fl (pre @ colon_tail) s k = []"
  unfolding match_at_def using assms colon_free_no_match has_colon_drop by blast

lemma colon_free_search:
  assumes "\<not> has_colon s"
  shows "re_search W fl (pre @ colon_tail) s = None"
  unfolding re_search_None_iff using colon_free_match_at [OF assms] by blast

subsection \<open>Substitution where nothing matches\<close>

lemma sub_from_no_match:
  assumes "\<forall>k \<le> length s. rmatch_seq W fl rs (prev_of (rev (take k s) @ bef), drop k s) = []"
  shows "sub_from W fl rs ma (prev_of bef) s = s"
  using assms
proof (induction s arbitrary: bef ma)
  case Nil
  then have "rmatch_seq W fl rs (prev_of bef, []) = []" by simp
  then show ?case by (subst sub_from.simps) (simp add: first_end_def)
next
  case (Cons c cs)
  from Cons.prems have 0: "rmatch_seq W fl rs (prev_of bef, c # cs) = []"
    by (metis append_Nil drop0 le0 rev.simps(1) take_0)
  have "\<forall>k \<le> length cs. rmatch_seq W fl rs (prev_of (rev (take k cs) @ c # bef), drop k cs) = []"
  proof (intro allI impI)
    fix k assume "k \<le> length cs"
    then have "rmatch_seq W fl rs (prev_of (rev (take (Suc k) (c # cs)) @ bef), drop (Suc k) (c # cs)) = []"
      using Cons.prems by (metis Suc_le_mono length_Cons)
    then show "rmatch_seq W fl rs (prev_of (rev (take k cs) @ c # bef), drop k cs) = []" by simp
  qed
  from Cons.IH [OF this] have ih: "sub_from W fl rs False (prev_of (c # bef)) cs = cs" .
  have "prev_of (c # bef) = Some c" by (simp add: prev_of_def)
  with ih 0 show ?case by (subst sub_from.simps) (simp add: first_end_def)
qed

lemma re_sub_no_match:
  assumes "\<forall>k \<le> length s. match_at W fl rs s k = []"
  shows "re_sub_empty W fl rs s = s"
proof -
  have "sub_from W fl rs False (prev_of []) s = s"
    by (rule sub_from_no_match) (use assms in \<open>simp add: match_at_def\<close>)
  then show ?thesis by (simp add: re_sub_empty_def prev_of_def)
qed

lemma colon_free_sub:
  assumes "\<not> has_colon s"
  shows "re_sub_empty W fl (pre @ colon_tail) s = s"
  by (rule re_sub_no_match) (simp add: colon_free_match_at [OF assms])

lemma colon_free_cleanup:
  assumes "\<not> has_colon s"
  shows "cleanup_pos W s = strip s" "cleanup_neg W s = strip s"
proof -
  have "re_sub_empty W fl_im pos_cleanup_re s = s"
    unfolding pos_cleanup_re_tail by (rule colon_free_sub [OF assms])
  then show "cleanup_pos W s = strip s" by (simp add: cleanup_pos_def)
  have "re_sub_empty W fl_im neg_cleanup_re s = s"
    unfolding neg_cleanup_re_tail by (rule colon_free_sub [OF assms])
  then show "cleanup_neg W s = strip s" by (simp add: cleanup_neg_def)
qed

lemma colon_free_steps:
  assumes "\<not> has_colon s"
  shows "trim_preamble W s = s" "split_at_negative W s = (strip s, [])"
proof -
  have "re_search W fl_is prompt_label_re s = None"
    unfolding prompt_label_re_tail by (rule colon_free_search [OF assms])
  then show "trim_preamble W s = s" by (simp add: trim_preamble_def)
  have "re_search W fl_im neg_re s = None"
    unfolding neg_re_tail by (rule colon_free_search [OF assms])
  then show "split_at_negative W s = (strip s, [])" by (simp add: split_at_negative_def)
qed

lemma colon_free_split:
  assumes "\<not> has_colon text"
  shows "split_positive_negative W text = (normalized text, [])"
proof (cases "text = []")
  case True
  then show ?thesis by (simp add: split_positive_negative_def normalized_def)
next
  case False
  have nc: "\<not> has_colon (normalized text)" using assms has_colon_normalized by blast
  then have nc': "\<not> has_colon (strip (normalized text))" using has_colon_strip by blast
  have "cleanup_neg W [] = []" using colon_free_cleanup(2) [of "[]" W] by simp
  with False show ?thesis
    using colon_free_steps [OF nc, of W] colon_free_cleanup(1) [OF nc', of W]
    by (simp add: split_positive_negative_def cleanup_def normalized_def [symmetric])
       (simp add: normalized_def)
qed

lemma search_match_has_colon:
  assumes "re_search W fl (pre @ colon_tail) s = Some (bef, aft)"
  shows "\<exists>m. s = bef @ m @ aft \<and> has_colon m"
proof -
  let ?M = "match_at W fl (pre @ colon_tail) s"
  from assms obtain j where j: "j \<le> length s" "?M j \<noteq> []" "bef = take j s" "aft = snd (hd (?M j))"
    unfolding re_search_Some_iff by blast
  from j(2) have "hd (?M j) \<in> set (rmatch_seq W fl (pre @ colon_tail) (prev_of (rev (take j s)), drop j s))"
    by (simp add: match_at_def)
  from colon_tail_consumes_colon [OF this] obtain u where "drop j s = u @ snd (hd (?M j))" "has_colon u"
    by auto
  with j(3,4) have "s = bef @ u @ aft \<and> has_colon u" by (metis append_take_drop_id)
  then show ?thesis by blast
qed

section \<open>The label patterns of step 1 and of the cleanup\<close>

subsection \<open>Flags\<close>

lemma atom_match_flags_pt: "atom_match fl_is a c = atom_match fl_im a c"
  by (cases a) (simp_all add: lit_match_def fl_is_def fl_im_def)

lemma atom_match_flags: "atom_match fl_is a = atom_match fl_im a"
  by (rule ext) (rule atom_match_flags_pt)

lemma star_ends_flags: "star_ends fl_is a prev s = star_ends fl_im a prev s"
  by (induction s arbitrary: prev) (simp_all add: atom_match_flags)

lemma rmatch_seq_flags_from_elems:
  assumes "\<And>r p. r \<in> set rs \<Longrightarrow> anchor_free r \<Longrightarrow> rmatch W fl_is r p = rmatch W fl_im r p"
  shows "anchor_free_seq rs \<Longrightarrow> rmatch_seq W fl_is rs p = rmatch_seq W fl_im rs p"
  using assms
proof (induction rs arbitrary: p)
  case Nil
  show ?case by simp
next
  case (Cons r rs)
  have 1: "rmatch W fl_is r p = rmatch W fl_im r p" using Cons.prems by simp
  have "\<And>q. rmatch_seq W fl_is rs q = rmatch_seq W fl_im rs q"
    using Cons.IH Cons.prems by simp
  then have 2: "rmatch_seq W fl_is rs = rmatch_seq W fl_im rs" by (rule ext)
  show ?case using 1 2 by simp
qed

lemma rmatch_flags:
  "anchor_free r \<Longrightarrow> rmatch W fl_is r p = rmatch W fl_im r p"
proof (induction r arbitrary: p)
  case (Chr a)
  show ?case by (cases "snd p") (simp_all add: atom_match_flags)
next
  case (Star a)
  show ?case by (simp add: star_ends_flags)
next
  case (Opt a)
  show ?case by (cases "snd p") (simp_all add: atom_match_flags)
next
  case Bol
  then show ?case by simp
next
  case WordB
  then show ?case by simp
next
  case (Alt alts)
  have "\<And>p. anchor_free_alts alts' \<Longrightarrow> set alts' \<subseteq> set alts
          \<Longrightarrow> rmatch_alts W fl_is alts' p = rmatch_alts W fl_im alts' p" for alts'
  proof (induction alts')
    case Nil
    show ?case by simp
  next
    case (Cons sq alts')
    have "rmatch_seq W fl_is sq p = rmatch_seq W fl_im sq p" for p
    proof (rule rmatch_seq_flags_from_elems)
      show "anchor_free_seq sq" using Cons.prems by simp
    next
      fix r p assume "r \<in> set sq" "anchor_free r"
      then show "rmatch W fl_is r p = rmatch W fl_im r p"
        using Alt.IH [of sq r p] Cons.prems by auto
    qed
    then show ?case using Cons by simp
  qed
  then show ?case using Alt.prems by simp
qed

lemma rmatch_seq_flags:
  "anchor_free_seq rs \<Longrightarrow> rmatch_seq W fl_is rs p = rmatch_seq W fl_im rs p"
  by (rule rmatch_seq_flags_from_elems) (simp_all add: rmatch_flags)

subsection \<open>A match of the cleanup pattern is a positive label of step 1\<close>

lemma positive_labels_same: "set positive_labels_cleanup = set positive_labels"
  by (auto simp: positive_labels_cleanup_def positive_labels_def)

lemma anchor_free_lits [simp]: "anchor_free_seq (lits w)"
  by (induction w) (simp_all add: lits_def)

lemma anchor_free_positive_labels [simp]: "anchor_free_alts positive_labels"
  by (simp add: positive_labels_def)

lemma anchor_free_colon_tail [simp]: "anchor_free_seq colon_tail"
  by (simp add: colon_tail_def)

lemma set_label_core:
  "set (rmatch_seq W fl (label_core alts) p)
     = (\<Union>q \<in> set (star_ends fl Space (fst p) (snd p)). \<Union>sq \<in> set alts.
          \<Union>q' \<in> set (rmatch_seq W fl sq q). set (rmatch_seq W fl colon_tail q'))"
  unfolding label_core_def by (simp add: set_rmatch_alts)

lemma set_label_core_cong:
  "set alts = set alts' \<Longrightarrow> set (rmatch_seq W fl (label_core alts) p) = set (rmatch_seq W fl (label_core alts') p)"
  by (simp only: set_label_core)

lemma pos_cleanup_re_core: "pos_cleanup_re = Bol # label_core positive_labels_cleanup"
  by (simp add: pos_cleanup_re_def label_core_def colon_tail_def)

lemma prompt_label_re_core: "prompt_label_re = Alt [[Bol], [Chr (Lit 10)]] # label_core positive_labels"
  by (simp add: prompt_label_re_def label_core_def colon_tail_def)

lemma anchor_free_label_core [simp]: "anchor_free_alts alts \<Longrightarrow> anchor_free_seq (label_core alts)"
  by (simp add: label_core_def colon_tail_def)

lemma cleanup_match_is_label:
  assumes k: "k \<le> length s" and m: "match_at W fl_im pos_cleanup_re s k \<noteq> []"
  shows "has_positive_label W s"
proof -
  let ?p = "(prev_of (rev (take k s)), drop k s)"
  from m have beg: "at_beginning fl_im ?p" and core: "rmatch_seq W fl_im (label_core positive_labels_cleanup) ?p \<noteq> []"
    by (auto simp: match_at_def pos_cleanup_re_core split: if_splits)
  from core have "set (rmatch_seq W fl_im (label_core positive_labels_cleanup) ?p) \<noteq> {}" by simp
  then have "set (rmatch_seq W fl_im (label_core positive_labels) ?p) \<noteq> {}"
    using set_label_core_cong [OF positive_labels_same] by simp
  then have core': "rmatch_seq W fl_is (label_core positive_labels) ?p \<noteq> []"
    by (simp add: rmatch_seq_flags)
  have "\<exists>j \<le> length s. match_at W fl_is prompt_label_re s j \<noteq> []"
  proof (cases k)
    case 0
    then have "at_beginning fl_is ?p" by (simp add: at_beginning_def prev_of_def)
    with core' have "match_at W fl_is prompt_label_re s k \<noteq> []"
      by (simp add: match_at_def prompt_label_re_core)
    with k show ?thesis by blast
  next
    case (Suc i)
    with k have i: "i < length s" by simp
    then have prev: "prev_of (rev (take k s)) = Some (s ! i)"
      using Suc by (simp add: prev_of_def take_Suc_conv_app_nth)
    with beg have nl: "s ! i = 10" by (simp add: at_beginning_def)
    have d: "drop i s = 10 # drop k s" using i nl Suc by (metis Cons_nth_drop_Suc)
    have "lit_match fl_is 10 10" by (simp add: lit_match_def ci_variants_def)
    then have "rmatch W fl_is (Chr (Lit 10)) (prev_of (rev (take i s)), drop i s) = [(Some 10, drop k s)]"
      using d by simp
    moreover have "rmatch_seq W fl_is (label_core positive_labels) (Some 10, drop k s) \<noteq> []"
      using core' prev nl by simp
    ultimately have "rmatch_seq W fl_is prompt_label_re (prev_of (rev (take i s)), drop i s) \<noteq> []"
      by (simp add: prompt_label_re_core del: rmatch.simps)
         (simp add: at_beginning_def)
    then have "match_at W fl_is prompt_label_re s i \<noteq> []" by (simp add: match_at_def)
    with i show ?thesis by (metis less_imp_le)
  qed
  then show ?thesis unfolding has_positive_label_def re_search_None_iff by blast
qed

lemma no_label_cleanup_pos:
  assumes "\<not> has_positive_label W s"
  shows "cleanup_pos W s = strip s"
proof -
  have "\<forall>k \<le> length s. match_at W fl_im pos_cleanup_re s k = []"
    using assms cleanup_match_is_label by blast
  then have "re_sub_empty W fl_im pos_cleanup_re s = s" by (rule re_sub_no_match)
  then show ?thesis by (simp add: cleanup_pos_def)
qed

lemma ignorecase_fl_im: "ignorecase fl_im" "multiline fl_im"
  by (simp_all add: fl_im_def)

lemma rmatch_seq_Nil_fun: "rmatch_seq W fl [] = (\<lambda>p. [p])"
  by (rule ext) simp

lemma concat_map_rmatch_seq_Nil: "concat (map (rmatch_seq W fl []) xs) = xs"
  by (simp add: rmatch_seq_Nil_fun)

lemma atom_match_Space_fun: "atom_match fl Space = isspace"
  by (rule ext) simp

lemma hd_star_ends: "snd (hd (star_ends fl a prev s)) = dropWhile (atom_match fl a) s"
  by (induction s arbitrary: prev) (simp_all add: hd_append atom_match_Space_fun)

lemma strip_lstrip: "strip (lstrip s) = strip s"
  by (simp add: strip_def lstrip_def)

lemma normalized_trimmed: "strip (normalized s) = normalized s"
  by (simp add: normalized_def)

lemma cleanup_neg_Nil: "cleanup_neg W [] = []"
  using colon_free_cleanup(2) [of "[]" W] by simp

lemma split_by_steps:
  assumes "input \<noteq> []" and "\<not> has_positive_label W (normalized input)"
  shows "split_positive_negative W input = cleanup W (split_at_negative W (normalized input))"
proof -
  from assms(2) have "trim_preamble W (normalized input) = normalized input"
    by (auto simp: has_positive_label_def trim_preamble_def split: option.splits)
  with assms(1) show ?thesis by (simp add: split_positive_negative_def normalized_def)
qed

lemma normalized_Nil: "normalized [] = []"
  by (simp add: normalized_def)


section \<open>The source selector\<close>

text \<open>
  C6. For all strings and every policy the selector returns the first non-empty string
  in the policy's order: content, fallback, reasoning for \<open>content_only\<close>; reasoning,
  fallback, content for \<open>reasoning_only\<close>; content, reasoning, fallback for \<open>auto\<close>; and
  the empty string when all three are empty.  With policy \<open>content_only\<close>, an empty
  content, fallback "F" and reasoning "R" it returns "F".
\<close>

theorem C6_select_source:
  "select_source (ascii ''content_only'') content reasoning fallback
     = first_nonempty [content, fallback, reasoning]
   \<and> select_source (ascii ''reasoning_only'') content reasoning fallback
     = first_nonempty [reasoning, fallback, content]
   \<and> select_source (ascii ''auto'') content reasoning fallback
     = first_nonempty [content, reasoning, fallback]
   \<and> select_source policy [] [] [] = []
   \<and> select_source (ascii ''content_only'') [] (ascii ''R'') (ascii ''F'') = ascii ''F''"
  by (simp add: select_source_def ascii_def)

theorem C6_select_source_witness:
  "select_source (ascii ''reasoning_only'') (ascii ''C'') [] (ascii ''F'') = ascii ''F''
   \<and> select_source (ascii ''auto'') [] (ascii ''R'') (ascii ''F'') = ascii ''R''"
  using C6_select_source [of "ascii ''C''" "[]" "ascii ''F''"]
    C6_select_source [of "[]" "ascii ''R''" "ascii ''F''"]
  by (simp add: ascii_def)

section \<open>The content extractor\<close>

lemma lstrip_empty_iff: "lstrip s = [] \<longleftrightarrow> list_all isspace s"
  by (simp add: lstrip_def dropWhile_eq_Nil_conv list_all_iff)

lemma strip_empty_iff: "strip s = [] \<longleftrightarrow> list_all isspace s"
proof
  assume "strip s = []"
  then have "dropWhile isspace (rev (dropWhile isspace s)) = []"
    by (simp add: strip_def rstrip_def lstrip_def)
  then have "\<forall>c \<in> set (dropWhile isspace s). isspace c"
    by (simp add: dropWhile_eq_Nil_conv)
  then have "dropWhile isspace s = []"
    by (metis hd_dropWhile list.set_sel(1))
  then show "list_all isspace s" by (simp add: dropWhile_eq_Nil_conv list_all_iff)
next
  assume "list_all isspace s"
  then have "dropWhile isspace s = []" by (simp add: dropWhile_eq_Nil_conv list_all_iff)
  then show "strip s = []"
    by (auto simp: strip_def rstrip_def lstrip_def dest: set_dropWhileD)
qed

lemma strip_nonempty_iff: "strip s \<noteq> [] \<longleftrightarrow> list_ex (\<lambda>c. \<not> isspace c) s"
  by (simp add: strip_empty_iff list_all_iff list_ex_iff)

lemma extract_block_contributed: "extract_block parts blk = parts @ contributed blk"
proof (cases blk)
  case (JDict kvs)
  let ?t = "py_or (dict_get kvs (ascii ''text'') JNull) (dict_get kvs (ascii ''content'') JNull)"
  show ?thesis
  proof (cases "truthy ?t")
    case True
    then have "py_or ?t (JStr []) = ?t" by (simp add: py_or_def)
    then show ?thesis using JDict
      by (simp add: Let_def strip_nonempty_iff split: json.splits)
  next
    case False
    then have t: "py_or ?t (JStr []) = JStr []" by (simp add: py_or_def)
    have "contributed (JDict kvs) = []"
      using False by (cases ?t) (auto simp: list_ex_iff)
    then show ?thesis using JDict t
      by (simp add: Let_def strip_def lstrip_def rstrip_def)
  qed
qed simp_all

lemma extract_blocks_contributed:
  "extract_blocks parts blks = parts @ concat (map contributed blks)"
  by (induction blks arbitrary: parts) (simp_all add: extract_block_contributed)

lemma extract_never_raises: "\<exists>s. extract_text_from_content py v = Inr s"
  by (cases v) (auto split: sum.splits)

lemma extract_example:
  "extract_text_from_content py
     (JList [JDict [(ascii ''text'', JStr (ascii ''A''))],
             JDict [(ascii ''content'', JStr (ascii ''B''))], JDict []])
   = Inr (ascii ''A\<newline>B'')"
  by (simp add: ascii_def dict_get_def py_or_def strip_def lstrip_def rstrip_def isspace_def)

text \<open>
  C7, as stated, fails: a block whose text is the one-space string " " holds a non-empty
  string, which the claim joins into the result, and the program leaves it out.  On
  [{"text":"A"},{"text":" "},{"text":"B"}] the program returns "A\nB", while the
  newline-join of the first non-empty strings is "A\n \nB".
\<close>

theorem C7_extract_text_counterexample:
  "extract_text_from_content (\<lambda>v. Inr [])
     (JList [JDict [(ascii ''text'', JStr (ascii ''A''))], JDict [(ascii ''text'', JStr (ascii '' ''))],
             JDict [(ascii ''text'', JStr (ascii ''B''))]])
   = Inr (ascii ''A\<newline>B'')
   \<and> claimed_list_text
     [JDict [(ascii ''text'', JStr (ascii ''A''))], JDict [(ascii ''text'', JStr (ascii '' ''))],
      JDict [(ascii ''text'', JStr (ascii ''B''))]]
   = ascii ''A\<newline> \<newline>B''"
  by (simp add: ascii_def dict_get_def py_or_def strip_def lstrip_def rstrip_def isspace_def
       claimed_list_text_def field_string_def)

text \<open>
  C7, amended.  For every content value the extractor returns "" for null, returns a
  plain string unchanged and never raises.  For every list of blocks it returns the
  newline-join, trimmed, of what the mapping elements contribute in order: an element
  contributes the value of its \<open>text\<close> field when that value is true, else the value of its
  \<open>content\<close> field, and only when the value taken is a string with at least one character
  that is not white space; other elements contribute nothing.  In particular
  [{"text":"A"},{"content":"B"},{}] yields "A\nB".
\<close>

theorem C7_extract_text:
  "extract_text_from_content py JNull = Inr []
   \<and> extract_text_from_content py (JStr s) = Inr s
   \<and> (\<exists>r. extract_text_from_content py v = Inr r)
   \<and> extract_text_from_content py (JList blks) = Inr (strip (join [10] (concat (map contributed blks))))
   \<and> extract_text_from_content py
         (JList [JDict [(ascii ''text'', JStr (ascii ''A''))],
                 JDict [(ascii ''content'', JStr (ascii ''B''))], JDict []])
       = Inr (ascii ''A\<newline>B'')"
  using extract_never_raises [of py v] extract_example [of py]
  by (simp add: extract_blocks_contributed)

theorem C7_extract_text_witness:
  "extract_text_from_content (\<lambda>v. Inl (Exn OtherError [])) (JInt 7) = Inr []
   \<and> extract_text_from_content (\<lambda>v. Inl (Exn OtherError []))
        (JList [JInt 1, JDict [(ascii ''text'', JInt 5), (ascii ''content'', JStr (ascii ''B''))],
                JDict [(ascii ''content'', JStr (ascii ''C''))]])
      = Inr (ascii ''C'')"
  using C7_extract_text [of "\<lambda>v. Inl (Exn OtherError [])" "[]" "JInt 7"
      "[JInt 1, JDict [(ascii ''text'', JInt 5), (ascii ''content'', JStr (ascii ''B''))],
        JDict [(ascii ''content'', JStr (ascii ''C''))]]"]
  by (simp add: ascii_def dict_get_def py_or_def strip_def lstrip_def rstrip_def isspace_def)

section \<open>The failure paths of the response assembler\<close>

lemma try_parse_raise_keeps_empty:
  assumes "try_parse rt cs elapsed resp st0 = Inl (e, st)"
  shows "positive st = positive st0 \<and> negative st = negative st0"
  using assms
  by (auto simp: try_parse_def Let_def split: sum.splits if_splits)

lemma parse_response_http_error:
  assumes "status_code resp \<ge> 400" and "json_body resp = Inr data" and "py_str rt data = Inr d"
  shows "parse_response rt cs elapsed resp
           = ([], [], ascii ''[OpenAIAsk] HTTP '' @ str_int (status_code resp) @ ascii '': '' @ d,
              json_dumps rt data)"
  using assms by (simp add: parse_response_def try_parse_def Let_def)

lemma parse_response_undecodable:
  assumes "json_body resp = Inl e"
  shows "parse_response rt cs elapsed resp
           = ([], [], ascii ''[OpenAIAsk] parse error: '' @ exn_message e @ [10] @ ascii ''HTTP ''
                        @ str_int (status_code resp) @ ascii '' Body: '' @ body_text resp,
              body_text resp)"
  using assms by (simp add: parse_response_def try_parse_def Let_def)

lemma parse_response_raise:
  assumes "try_parse rt cs elapsed resp \<lparr>positive = [], negative = [], answer_text = [], raw_json_text = []\<rparr> = Inl (e, st)"
  shows "parse_response rt cs elapsed resp
           = ([], [], ascii ''[OpenAIAsk] parse error: '' @ exn_message e @ [10] @ ascii ''HTTP ''
                        @ str_int (status_code resp) @ ascii '' Body: '' @ body_text resp,
              body_text resp)"
  using assms try_parse_raise_keeps_empty [OF assms]
  by (simp add: parse_response_def Let_def)

text \<open>
  C9. On the failure paths of the assembler: for every reply with status at least 400 and
  a body that decodes, positive and negative are "", the answer text carries the status
  code and the decoded body, and the raw JSON is the pretty-printed body; for every reply
  whose body does not decode, positive and negative are "", the answer text is the
  parse-error message with the status and the raw text, and the raw JSON is the raw body
  text; the same holds for any exception raised while the decoded body is read.  Every
  path, the transport's failure included, yields the four outputs.
\<close>

theorem C9_failure_paths:
  "(400 \<le> status_code resp \<and> json_body resp = Inr data \<and> py_str rt data = Inr d \<longrightarrow>
      ask rt policy elapsed (Inr resp)
        = ([], [], ascii ''[OpenAIAsk] HTTP '' @ str_int (status_code resp) @ ascii '': '' @ d,
           json_dumps rt data))
   \<and> (json_body resp = Inl e \<longrightarrow>
      ask rt policy elapsed (Inr resp)
        = ([], [], ascii ''[OpenAIAsk] parse error: '' @ exn_message e @ [10] @ ascii ''HTTP ''
                     @ str_int (status_code resp) @ ascii '' Body: '' @ body_text resp,
           body_text resp))
   \<and> (try_parse rt policy elapsed resp
         \<lparr>positive = [], negative = [], answer_text = [], raw_json_text = []\<rparr> = Inl (e, st) \<longrightarrow>
      ask rt policy elapsed (Inr resp)
        = ([], [], ascii ''[OpenAIAsk] parse error: '' @ exn_message e @ [10] @ ascii ''HTTP ''
                     @ str_int (status_code resp) @ ascii '' Body: '' @ body_text resp,
           body_text resp))
   \<and> ask rt policy elapsed (Inl e)
        = ([], [], ascii ''[OpenAIAsk] request error: '' @ exn_message e,
           json_dumps rt (JDict [(ascii ''error'', JStr (ascii ''[OpenAIAsk] request error: '' @ exn_message e))]))
   \<and> (\<exists>p n a r. ask rt policy elapsed posted = (p, n, a, r))"
proof -
  have "\<exists>p n a r. ask rt policy elapsed posted = (p, n, a, r)"
    by (cases "ask rt policy elapsed posted") simp
  then show ?thesis
    using parse_response_http_error [of resp data rt d policy elapsed]
      parse_response_undecodable [of resp e rt policy elapsed]
      parse_response_raise [of rt policy elapsed resp e st]
    by (simp add: ask_def Let_def)
qed

theorem C9_failure_paths_witness:
  "ask \<lparr>uni_alnum = (\<lambda>c. False), json_dumps = (\<lambda>v. ascii ''{}''), py_str = (\<lambda>v. Inr (ascii ''{}''))\<rparr>
       (ascii ''auto'') (ascii ''0.10s'')
       (Inr \<lparr>status_code = 500, json_body = Inr (JDict []), body_text = ascii ''{}''\<rparr>)
     = ([], [], ascii ''[OpenAIAsk] HTTP 500: {}'', ascii ''{}'')
   \<and> ask \<lparr>uni_alnum = (\<lambda>c. False), json_dumps = (\<lambda>v. ascii ''{}''), py_str = (\<lambda>v. Inr (ascii ''{}''))\<rparr>
       (ascii ''auto'') (ascii ''0.10s'')
       (Inr \<lparr>status_code = 200, json_body = Inl (Exn ValueError (ascii ''Expecting value'')),
             body_text = ascii ''<html>''\<rparr>)
     = ([], [], ascii ''[OpenAIAsk] parse error: Expecting value\<newline>HTTP 200 Body: <html>'',
        ascii ''<html>'')"
  using C9_failure_paths [of "\<lparr>status_code = 500, json_body = Inr (JDict []), body_text = ascii ''{}''\<rparr>"
      "JDict []"
      "\<lparr>uni_alnum = (\<lambda>c. False), json_dumps = (\<lambda>v. ascii ''{}''), py_str = (\<lambda>v. Inr (ascii ''{}''))\<rparr>"
      "ascii ''{}''" "ascii ''auto''" "ascii ''0.10s''"]
    C9_failure_paths [of "\<lparr>status_code = 200, json_body = Inl (Exn ValueError (ascii ''Expecting value'')),
             body_text = ascii ''<html>''\<rparr>" _
      "\<lparr>uni_alnum = (\<lambda>c. False), json_dumps = (\<lambda>v. ascii ''{}''), py_str = (\<lambda>v. Inr (ascii ''{}''))\<rparr>"
      _ "ascii ''auto''" "ascii ''0.10s''" "Exn ValueError (ascii ''Expecting value'')"]
  by (simp add: str_int_def ascii_def)

section \<open>The word boundary before the localized negative labels\<close>

lemma localized_cases:
  "L \<in> set localized_negative_labels \<Longrightarrow>
     L = [0x8D1F, 0x5411] \<or> L = [0x8D1F, 0x9762] \<or> L = [0x907F, 0x514D] \<or> L = [0x4E0D, 0x8981]"
  by (simp add: localized_negative_labels_def)

lemma localized_first_word:
  "L \<in> set localized_negative_labels \<Longrightarrow> \<exists>l ls. L = l # ls \<and> is_word W l"
  by (auto dest!: localized_cases simp: is_word_def isspace_def)

lemma localized_after_word:
  assumes "is_word W c" and "L \<in> set localized_negative_labels"
  shows "rmatch_seq W fl neg_re (Some c, L @ rest) = []"
proof -
  from localized_first_word [OF assms(2)] obtain l ls where "L = l # ls" "is_word W l" by blast
  with assms(1) have "\<not> at_boundary W (Some c, L @ rest)" by (simp add: at_boundary_def)
  then show ?thesis by (simp add: neg_re_def)
qed

lemma localized_after_word_at:
  assumes "is_word W c" and "L \<in> set localized_negative_labels"
  shows "match_at W fl_im neg_re (b @ c # L @ rest) (Suc (length b)) = []"
  using localized_after_word [OF assms] by (simp add: match_at_append_Cons)

lemma localized_after_word_only:
  assumes "is_word W c" and "L \<in> set localized_negative_labels"
    and "\<forall>k \<le> length (b @ c # L @ rest). k \<noteq> Suc (length b) \<longrightarrow> match_at W fl_im neg_re (b @ c # L @ rest) k = []"
  shows "split_at_negative W (b @ c # L @ rest) = (strip (b @ c # L @ rest), [])"
proof -
  have "\<forall>k \<le> length (b @ c # L @ rest). match_at W fl_im neg_re (b @ c # L @ rest) k = []"
    using assms(3) localized_after_word_at [OF assms(1,2), of b rest] by metis
  then have "re_search W fl_im neg_re (b @ c # L @ rest) = None"
    by (simp only: re_search_None_iff)
  then show ?thesis by (simp add: split_at_negative_def)
qed

lemma localized_spelled: "L \<in> set localized_negative_labels \<Longrightarrow> list_all2 (lit_match fl_im) L L"
  by (auto dest!: localized_cases simp: lit_match_def ci_variants_def)

lemma localized_in_labels: "L \<in> set localized_negative_labels \<Longrightarrow> lits L \<in> set negative_labels"
  by (auto dest!: localized_cases simp: negative_labels_def)

lemma localized_at_boundary:
  assumes "prev = None \<or> (\<exists>c. prev = Some c \<and> \<not> is_word W c)"
    and "L \<in> set localized_negative_labels" and "is_colon d"
  shows "rmatch_seq W fl_im neg_re (prev, L @ d # rest) \<noteq> []"
proof -
  from localized_first_word [OF assms(2)] obtain l ls where "L = l # ls" "is_word W l" by blast
  with assms(1) have b: "at_boundary W (prev, L @ d # rest)"
    by (auto simp: at_boundary_def)
  have "d # rest = [] @ d # [] @ snd (Some d, rest) \<and> spaces [] \<and> is_colon d \<and> spaces []
          \<and> fst (Some d, rest) = adv (Some d) []"
    using assms(3) by (simp add: spaces_def)
  then have tail: "(Some d, rest) \<in> set (rmatch_seq W fl_im [Star Space, Chr colon, Star Space] (adv prev L, d # rest))"
    unfolding in_tail_iff by blast
  have lab: "(adv prev L, d # rest) \<in> set (rmatch_seq W fl_im (lits L) (prev, L @ d # rest))"
    using lits_intro [OF localized_spelled [OF assms(2)]] .
  have "(Some d, rest) \<in> set (rmatch_seq W fl_im neg_re (prev, L @ d # rest))"
    unfolding in_neg_re_iff using b localized_in_labels [OF assms(2)] lab tail by blast
  then show ?thesis by auto
qed

lemma split_example_localized_inside:
  "split_positive_negative W ([0x8BF7, 0x907F, 0x514D] @ ascii '': blur'')
     = ([0x8BF7, 0x907F, 0x514D] @ ascii '': blur'', [])"
  by (simp add: eval_defs)

lemma split_example_localized_start:
  "split_positive_negative W ([0x907F, 0x514D] @ ascii '': blur'') = ([], ascii ''blur'')"
  by (simp add: eval_defs)

lemma split_example_localized_after_space:
  "split_positive_negative W (ascii ''a '' @ [0x907F, 0x514D] @ ascii '': blur'')
     = (ascii ''a'', ascii ''blur'')"
  by (simp add: eval_defs)

lemma localized_inside_whole:
  assumes n: "normalized input = b @ c # L @ rest"
    and w: "is_word W c" and l: "L \<in> set localized_negative_labels"
    and np: "\<not> has_positive_label W (normalized input)"
    and others: "\<forall>k \<le> length (normalized input). k \<noteq> Suc (length b) \<longrightarrow>
                   match_at W fl_im neg_re (normalized input) k = []"
  shows "split_positive_negative W input = (normalized input, [])"
proof -
  have ne: "input \<noteq> []" using n normalized_Nil by auto
  have "split_at_negative W (b @ c # L @ rest) = (strip (b @ c # L @ rest), [])"
    by (rule localized_after_word_only [OF w l]) (use others n in simp)
  then have "split_at_negative W (normalized input) = (normalized input, [])"
    using n normalized_trimmed [of input] by simp
  then show ?thesis
    using split_by_steps [OF ne np] no_label_cleanup_pos [OF np] cleanup_neg_Nil [of W]
    by (simp add: cleanup_def normalized_trimmed)
qed

lemma localized_match_eval:
  assumes "at_boundary W (prev, L @ d # rest)" and "L \<in> set localized_negative_labels" and "is_colon d"
  shows "rmatch_seq W fl_im neg_re (prev, L @ d # rest) = star_ends fl_im Space (Some d) rest"
proof -
  from assms(3) have d: "d = 58 \<or> d = 0xFF1A" by (simp add: is_colon_def)
  from localized_cases [OF assms(2)] d assms(1) show ?thesis
    by (elim disjE)
       (simp_all add: neg_re_def negative_labels_def lits_def ascii_def lit_match_def ci_variants_def
          colon_def isspace_def ignorecase_fl_im concat_map_rmatch_seq_Nil)
qed

lemma localized_boundary_splits:
  assumes n: "normalized input = b @ L @ d # rest"
    and bd: "b = [] \<or> \<not> is_word W (last b)"
    and l: "L \<in> set localized_negative_labels" and d: "is_colon d"
    and np: "\<not> has_positive_label W (normalized input)"
    and earlier: "\<forall>k < length b. match_at W fl_im neg_re (normalized input) k = []"
  shows "split_positive_negative W input = (cleanup_pos W (strip b), cleanup_neg W (strip rest))"
proof -
  let ?s = "normalized input"
  have ne: "input \<noteq> []" using n normalized_Nil by auto
  from localized_first_word [OF l] obtain x xs where L: "L = x # xs" "is_word W x" by blast
  have prev: "prev_of (rev (take (length b) ?s)) = (if b = [] then None else Some (last b))"
    using n by (cases b rule: rev_cases) (simp_all add: prev_of_def)
  have bnd: "at_boundary W (prev_of (rev (take (length b) ?s)), L @ d # rest)"
    using bd L prev by (auto simp: at_boundary_def)
  have m: "match_at W fl_im neg_re ?s (length b) = star_ends fl_im Space (Some d) rest"
    using localized_match_eval [OF bnd l d] n by (simp add: match_at_def)
  have "re_search W fl_im neg_re ?s = Some (b, lstrip rest)"
    unfolding re_search_Some_iff
  proof (intro exI [of _ "length b"] conjI)
    show "length b \<le> length ?s" using n by simp
    show "\<forall>i < length b. match_at W fl_im neg_re ?s i = []" using earlier .
    show "match_at W fl_im neg_re ?s (length b) \<noteq> []" using m by simp
    show "b = take (length b) ?s" using n by simp
    show "lstrip rest = snd (hd (match_at W fl_im neg_re ?s (length b)))"
      using m by (simp add: hd_star_ends lstrip_def atom_match_Space_fun)
  qed
  then have "split_at_negative W ?s = (strip b, strip rest)"
    by (simp add: split_at_negative_def strip_lstrip)
  then show ?thesis using split_by_steps [OF ne np] by (simp add: cleanup_def)
qed

lemma split_example_localized_and_english:
  "split_positive_negative W ([0x8BF7, 0x907F, 0x514D] @ ascii '': blur, avoid: x'')
     = ([0x8BF7, 0x907F, 0x514D] @ ascii '': blur,'', ascii ''x'')"
  by (simp add: eval_defs)

lemma split_example_localized_before_prompt:
  "split_positive_negative W ([0x907F, 0x514D] @ ascii '': x\<newline>Prompt: y'') = (ascii ''y'', [])"
  by (simp add: eval_defs)

text \<open>
  C10, as stated, fails on both of its universals.  In U+8BF7 U+907F U+514D
  ": blur, avoid: x" the localized label stands directly after a word character, and the
  whole text does not remain in the positive segment: the text is split at \<open>avoid:\<close>.
  In U+907F U+514D ": x\nPrompt: y" the localized label stands at the start of the text,
  and the text is not split there: step 1 discards everything up to \<open>Prompt:\<close> and the
  result is ("y", "").
\<close>

theorem C10_localized_word_boundary_counterexample:
  "\<forall>W. split_positive_negative W ([0x8BF7, 0x907F, 0x514D] @ ascii '': blur, avoid: x'')
          = ([0x8BF7, 0x907F, 0x514D] @ ascii '': blur,'', ascii ''x'')
       \<and> split_positive_negative W ([0x907F, 0x514D] @ ascii '': x\<newline>Prompt: y'') = (ascii ''y'', [])"
  using split_example_localized_and_english split_example_localized_before_prompt by blast

text \<open>
  C10, amended.  The word boundary of the negative pattern applies to the localized
  labels as to the English ones.  For every text, no negative-label match starts at a
  localized label that stands directly after a word character; and when the normalised
  text has such a label, step 1 finds no positive label in it and no negative label
  matches at any other position, the splitter returns the whole normalised text as the
  positive part and an empty negative part (U+8BF7 U+907F U+514D ": blur" is returned
  whole).  When a localized label followed by a colon stands at the start of the
  normalised text or directly after a character that is not a word character, step 1
  finds no positive label and no negative label matches at an earlier position, the
  splitter splits there: the positive part is the cleaned-up text before the label and the
  negative part the cleaned-up text after the colon (U+907F U+514D ": blur" gives
  ("", "blur") and "a U+907F U+514D: blur" gives ("a", "blur")).
\<close>

theorem C10_localized_word_boundary:
  "(is_word W c \<and> L \<in> set localized_negative_labels \<longrightarrow>
      match_at W fl_im neg_re (b @ c # L @ rest) (Suc (length b)) = [])
   \<and> (normalized input = b @ c # L @ rest \<and> is_word W c \<and> L \<in> set localized_negative_labels
        \<and> \<not> has_positive_label W (normalized input)
        \<and> (\<forall>k \<le> length (normalized input). k \<noteq> Suc (length b) \<longrightarrow>
               match_at W fl_im neg_re (normalized input) k = [])
        \<longrightarrow> split_positive_negative W input = (normalized input, []))
   \<and> (normalized input = b @ L @ d # rest \<and> (b = [] \<or> \<not> is_word W (last b))
        \<and> L \<in> set localized_negative_labels \<and> is_colon d
        \<and> \<not> has_positive_label W (normalized input)
        \<and> (\<forall>k < length b. match_at W fl_im neg_re (normalized input) k = [])
        \<longrightarrow> split_positive_negative W input = (cleanup_pos W (strip b), cleanup_neg W (strip rest)))
   \<and> split_positive_negative W ([0x8BF7, 0x907F, 0x514D] @ ascii '': blur'')
        = ([0x8BF7, 0x907F, 0x514D] @ ascii '': blur'', [])
   \<and> split_positive_negative W ([0x907F, 0x514D] @ ascii '': blur'') = ([], ascii ''blur'')
   \<and> split_positive_negative W (ascii ''a '' @ [0x907F, 0x514D] @ ascii '': blur'')
        = (ascii ''a'', ascii ''blur'')"
proof (intro conjI impI)
  assume "is_word W c \<and> L \<in> set localized_negative_labels"
  then show "match_at W fl_im neg_re (b @ c # L @ rest) (Suc (length b)) = []"
    using localized_after_word_at by blast
next
  assume h: "normalized input = b @ c # L @ rest \<and> is_word W c \<and> L \<in> set localized_negative_labels
        \<and> \<not> has_positive_label W (normalized input)
        \<and> (\<forall>k \<le> length (normalized input). k \<noteq> Suc (length b) \<longrightarrow>
               match_at W fl_im neg_re (normalized input) k = [])"
  show "split_positive_negative W input = (normalized input, [])"
    by (rule localized_inside_whole [of input b c L rest W]) (use h in blast)+
next
  assume h: "normalized input = b @ L @ d # rest \<and> (b = [] \<or> \<not> is_word W (last b))
        \<and> L \<in> set localized_negative_labels \<and> is_colon d
        \<and> \<not> has_positive_label W (normalized input)
        \<and> (\<forall>k < length b. match_at W fl_im neg_re (normalized input) k = [])"
  show "split_positive_negative W input = (cleanup_pos W (strip b), cleanup_neg W (strip rest))"
    by (rule localized_boundary_splits [of input b L d rest W]) (use h in blast)+
next
  show "split_positive_negative W ([0x8BF7, 0x907F, 0x514D] @ ascii '': blur'')
        = ([0x8BF7, 0x907F, 0x514D] @ ascii '': blur'', [])"
    by (rule split_example_localized_inside)
next
  show "split_positive_negative W ([0x907F, 0x514D] @ ascii '': blur'') = ([], ascii ''blur'')"
    by (rule split_example_localized_start)
next
  show "split_positive_negative W (ascii ''a '' @ [0x907F, 0x514D] @ ascii '': blur'')
        = (ascii ''a'', ascii ''blur'')"
    by (rule split_example_localized_after_space)
qed

lemma witness_inside_facts:
  "normalized ([0x8BF7, 0x907F, 0x514D] @ ascii '': blur'') = [] @ 0x8BF7 # [0x907F, 0x514D] @ ascii '': blur''"
  "is_word (\<lambda>c. False) 0x8BF7"
  "[0x907F, 0x514D] \<in> set localized_negative_labels"
  "\<not> has_positive_label (\<lambda>c. False) (normalized ([0x8BF7, 0x907F, 0x514D] @ ascii '': blur''))"
  "re_search (\<lambda>c. False) fl_im neg_re (normalized ([0x8BF7, 0x907F, 0x514D] @ ascii '': blur'')) = None"
  by (simp_all add: eval_defs localized_negative_labels_def)

lemma witness_boundary_facts:
  "normalized (ascii ''a '' @ [0x907F, 0x514D] @ ascii '': blur'') = ascii ''a '' @ [0x907F, 0x514D] @ 58 # ascii '' blur''"
  "\<not> is_word (\<lambda>c. False) (last (ascii ''a ''))"
  "is_colon 58"
  "\<not> has_positive_label (\<lambda>c. False) (normalized (ascii ''a '' @ [0x907F, 0x514D] @ ascii '': blur''))"
  "match_at (\<lambda>c. False) fl_im neg_re (normalized (ascii ''a '' @ [0x907F, 0x514D] @ ascii '': blur'')) 0 = []"
  "match_at (\<lambda>c. False) fl_im neg_re (normalized (ascii ''a '' @ [0x907F, 0x514D] @ ascii '': blur'')) (Suc 0) = []"
  by (simp_all add: eval_defs match_at_def is_colon_def)

theorem C10_localized_word_boundary_witness:
  "normalized ([0x8BF7, 0x907F, 0x514D] @ ascii '': blur'') = [] @ 0x8BF7 # [0x907F, 0x514D] @ ascii '': blur''
   \<and> is_word (\<lambda>c. False) 0x8BF7 \<and> [0x907F, 0x514D] \<in> set localized_negative_labels
   \<and> \<not> has_positive_label (\<lambda>c. False) (normalized ([0x8BF7, 0x907F, 0x514D] @ ascii '': blur''))
   \<and> match_at (\<lambda>c. False) fl_im neg_re (([]::nat list) @ 0x8BF7 # [0x907F, 0x514D] @ ascii '': blur'')
        (Suc (length ([]::nat list))) = []
   \<and> split_positive_negative (\<lambda>c. False) ([0x8BF7, 0x907F, 0x514D] @ ascii '': blur'')
        = (normalized ([0x8BF7, 0x907F, 0x514D] @ ascii '': blur''), [])
   \<and> normalized (ascii ''a '' @ [0x907F, 0x514D] @ ascii '': blur'')
        = ascii ''a '' @ [0x907F, 0x514D] @ 58 # ascii '' blur''
   \<and> \<not> is_word (\<lambda>c. False) (last (ascii ''a '')) \<and> is_colon 58
   \<and> \<not> has_positive_label (\<lambda>c. False) (normalized (ascii ''a '' @ [0x907F, 0x514D] @ ascii '': blur''))
   \<and> split_positive_negative (\<lambda>c. False) (ascii ''a '' @ [0x907F, 0x514D] @ ascii '': blur'')
        = (cleanup_pos (\<lambda>c. False) (strip (ascii ''a '')), cleanup_neg (\<lambda>c. False) (strip (ascii '' blur'')))"
proof -
  let ?W = "\<lambda>c::nat. False"
  let ?x = "[0x8BF7, 0x907F, 0x514D] @ ascii '': blur''"
  let ?y = "ascii ''a '' @ [0x907F, 0x514D] @ ascii '': blur''"
  note i1 = C10_localized_word_boundary [where W = ?W and c = "0x8BF7" and L = "[0x907F, 0x514D]"
      and b = "[]" and rest = "ascii '': blur''" and input = ?x and d = 58]
  note i2 = C10_localized_word_boundary [where W = ?W and c = "0x8BF7" and L = "[0x907F, 0x514D]"
      and b = "ascii ''a ''" and rest = "ascii '' blur''" and input = ?y and d = 58]
  have others: "\<forall>k \<le> length (normalized ?x). k \<noteq> Suc (length ([]::nat list)) \<longrightarrow>
                  match_at ?W fl_im neg_re (normalized ?x) k = []"
    using witness_inside_facts(5) unfolding re_search_None_iff by blast
  have earlier: "\<forall>k < length (ascii ''a ''). match_at ?W fl_im neg_re (normalized ?y) k = []"
  proof (intro allI impI)
    fix k assume "k < length (ascii ''a '')"
    then have "k = 0 \<or> k = Suc 0" by (auto simp: ascii_def)
    then show "match_at ?W fl_im neg_re (normalized ?y) k = []"
      using witness_boundary_facts(5,6) by blast
  qed
  have a: "match_at ?W fl_im neg_re (([]::nat list) @ 0x8BF7 # [0x907F, 0x514D] @ ascii '': blur'')
        (Suc (length ([]::nat list))) = []"
    using i1 [THEN conjunct1] witness_inside_facts(2,3) by blast
  have b: "split_positive_negative ?W ?x = (normalized ?x, [])"
    using i1 [THEN conjunct2, THEN conjunct1] witness_inside_facts(1,2,3,4) others by blast
  have c: "split_positive_negative ?W ?y
             = (cleanup_pos ?W (strip (ascii ''a '')), cleanup_neg ?W (strip (ascii '' blur'')))"
    using i2 [THEN conjunct2, THEN conjunct2, THEN conjunct1] witness_boundary_facts(1,2,3,4)
      witness_inside_facts(3) earlier by blast
  from witness_inside_facts(1,2,3,4) a b witness_boundary_facts(1,2,3,4) c show ?thesis
    by (intro conjI)
qed

section \<open>The colon after a label\<close>

lemma split_example_label_without_colon:
  "split_positive_negative W (ascii ''intro\<newline>Prompt a cat'') = (ascii ''intro\<newline>Prompt a cat'', [])"
  by (simp add: eval_defs)

lemma split_example_negative_without_colon:
  "split_positive_negative W (ascii ''a cat avoid blur'') = (ascii ''a cat avoid blur'', [])"
  by (simp add: eval_defs)

lemma split_example_label_with_colon:
  "split_positive_negative W (ascii ''intro\<newline>Prompt: a cat'') = (ascii ''a cat'', [])"
  by (simp add: eval_defs)

lemma split_example_negative_with_colon:
  "split_positive_negative W (ascii ''a cat avoid: blur'') = (ascii ''a cat'', ascii ''blur'')"
  by (simp add: eval_defs)

text \<open>
  C2, as stated, fails: the colon is not optional.  In "intro\nPrompt a cat" the label
  \<open>Prompt\<close> stands right after a newline with no colon after it, and the preamble is not
  discarded: the whole text is the positive part.  In "a cat avoid blur" the label
  \<open>avoid\<close> is word-bounded with no colon after it, and the text is not split.
\<close>

theorem C2_colon_optional_counterexample:
  "\<forall>W. split_positive_negative W (ascii ''intro\<newline>Prompt a cat'') = (ascii ''intro\<newline>Prompt a cat'', [])
       \<and> split_positive_negative W (ascii ''a cat avoid blur'') = (ascii ''a cat avoid blur'', [])"
  using split_example_label_without_colon split_example_negative_without_colon by blast

lemma trim_preamble_found:
  assumes "re_search W fl_is prompt_label_re s = Some (bef, aft)"
  shows "(\<exists>m. s = bef @ m @ aft \<and> has_colon m) \<and> trim_preamble W s = lstrip aft"
  using assms search_match_has_colon [OF assms [unfolded prompt_label_re_tail]]
  by (simp add: trim_preamble_def)

lemma split_at_negative_found:
  assumes "re_search W fl_im neg_re s = Some (bef, aft)"
  shows "(\<exists>m. s = bef @ m @ aft \<and> has_colon m) \<and> split_at_negative W s = (strip bef, strip aft)"
  using assms search_match_has_colon [OF assms [unfolded neg_re_tail]]
  by (simp add: split_at_negative_def)

text \<open>
  C2, amended.  In the splitter the colon after a label is required, both for the
  positive label of step 1 and for the negative label of step 2.  Every text without a
  colon (ASCII or full-width) is returned whole, normalised and trimmed, as the positive
  part, with an empty negative part.  When step 1 finds a positive label, the text it
  discards ends with a match that contains a colon; when step 2 finds a negative label,
  the text is split around a match that contains a colon.  With the colon,
  "intro\nPrompt: a cat" gives ("a cat", "") and "a cat avoid: blur" gives
  ("a cat", "blur").
\<close>

theorem C2_colon_required:
  "(\<not> has_colon input \<longrightarrow> split_positive_negative W input = (normalized input, []))
   \<and> (re_search W fl_is prompt_label_re s = Some (bef, aft) \<longrightarrow>
        (\<exists>m. s = bef @ m @ aft \<and> has_colon m) \<and> trim_preamble W s = lstrip aft)
   \<and> (re_search W fl_im neg_re s = Some (bef, aft) \<longrightarrow>
        (\<exists>m. s = bef @ m @ aft \<and> has_colon m) \<and> split_at_negative W s = (strip bef, strip aft))
   \<and> split_positive_negative W (ascii ''intro\<newline>Prompt: a cat'') = (ascii ''a cat'', [])
   \<and> split_positive_negative W (ascii ''a cat avoid: blur'') = (ascii ''a cat'', ascii ''blur'')"
  using colon_free_split [of input W] trim_preamble_found [of W s bef aft]
    split_at_negative_found [of W s bef aft]
    split_example_label_with_colon [of W] split_example_negative_with_colon [of W]
  by blast

lemma found_positive_label:
  "re_search (\<lambda>c. False) fl_is prompt_label_re (ascii ''intro\<newline>Prompt: a cat'')
     = Some (ascii ''intro'', ascii ''a cat'')"
  by (simp add: eval_defs)

lemma found_negative_label:
  "re_search (\<lambda>c. False) fl_im neg_re (ascii ''a cat avoid: blur'') = Some (ascii ''a cat '', ascii ''blur'')"
  by (simp add: eval_defs)

lemma no_colon_example: "\<not> has_colon (ascii ''Prompt a cat'')"
  by (simp add: ascii_def is_colon_def)

theorem C2_colon_required_witness:
  "\<not> has_colon (ascii ''Prompt a cat'')
   \<and> split_positive_negative (\<lambda>c. False) (ascii ''Prompt a cat'') = (normalized (ascii ''Prompt a cat''), [])
   \<and> re_search (\<lambda>c. False) fl_is prompt_label_re (ascii ''intro\<newline>Prompt: a cat'')
        = Some (ascii ''intro'', ascii ''a cat'')
   \<and> trim_preamble (\<lambda>c. False) (ascii ''intro\<newline>Prompt: a cat'') = lstrip (ascii ''a cat'')
   \<and> re_search (\<lambda>c. False) fl_im neg_re (ascii ''a cat avoid: blur'') = Some (ascii ''a cat '', ascii ''blur'')
   \<and> split_at_negative (\<lambda>c. False) (ascii ''a cat avoid: blur'') = (strip (ascii ''a cat ''), strip (ascii ''blur''))"
proof -
  note i1 = C2_colon_required [where W = "\<lambda>c. False" and input = "ascii ''Prompt a cat''"
      and s = "ascii ''intro\<newline>Prompt: a cat''" and bef = "ascii ''intro''" and aft = "ascii ''a cat''"]
  note i2 = C2_colon_required [where W = "\<lambda>c. False" and input = "ascii ''Prompt a cat''"
      and s = "ascii ''a cat avoid: blur''" and bef = "ascii ''a cat ''" and aft = "ascii ''blur''"]
  have a: "split_positive_negative (\<lambda>c. False) (ascii ''Prompt a cat'') = (normalized (ascii ''Prompt a cat''), [])"
    using i1 [THEN conjunct1] no_colon_example by (rule mp)
  have b: "trim_preamble (\<lambda>c. False) (ascii ''intro\<newline>Prompt: a cat'') = lstrip (ascii ''a cat'')"
    using i1 [THEN conjunct2, THEN conjunct1, THEN mp, OF found_positive_label] by (rule conjunct2)
  have c: "split_at_negative (\<lambda>c. False) (ascii ''a cat avoid: blur'') = (strip (ascii ''a cat ''), strip (ascii ''blur''))"
    using i2 [THEN conjunct2, THEN conjunct2, THEN conjunct1, THEN mp, OF found_negative_label]
    by (rule conjunct2)
  from no_colon_example a found_positive_label b found_negative_label c show ?thesis
    by (intro conjI)
qed

section \<open>The sanitizer\<close>

lemma ignorecase_fl_i: "ignorecase fl_i" "\<not> multiline fl_i"
  by (simp_all add: fl_i_def)

lemma lit_match_ci: "ignorecase fl \<Longrightarrow> lit_match fl l c = (c \<in> set (ci_variants l))"
  by (simp add: lit_match_def)

lemma lit_match_ci_fun: "ignorecase fl \<Longrightarrow> lit_match fl = (\<lambda>l c. c \<in> set (ci_variants l))"
  by (intro ext) (simp add: lit_match_def)

lemma spelled_iff: "ignorecase fl \<Longrightarrow> list_all2 (lit_match fl) lab L = spelled lab L"
  by (simp add: spelled_def lit_match_ci_fun)

lemma in_rmatch_Opt_iff:
  "e \<in> set (rmatch W fl (Opt a) p) \<longleftrightarrow>
     e = p \<or> (\<exists>c. snd p = c # snd e \<and> fst e = Some c \<and> atom_match fl a c)"
  by (cases "snd p") (auto simp: prod_eq_iff)

lemma user_re_after_start: "rmatch_seq W fl_i user_re (Some c, t) = []"
  by (simp add: user_re_def at_beginning_def ignorecase_fl_i)

lemma sub_user_after_start: "sub_from W fl_i user_re ma (Some c) t = t"
proof -
  have "\<forall>k \<le> length t. rmatch_seq W fl_i user_re (prev_of (rev (take k t) @ [c]), drop k t) = []"
  proof (intro allI impI)
    fix k
    obtain d where "prev_of (rev (take k t) @ [c]) = Some d"
      by (cases "rev (take k t) @ [c]") (auto simp: prev_of_def)
    then show "rmatch_seq W fl_i user_re (prev_of (rev (take k t) @ [c]), drop k t) = []"
      by (simp add: user_re_after_start)
  qed
  from sub_from_no_match [OF this, of ma] show ?thesis by (simp add: prev_of_def)
qed


lemma spaces_append [simp]: "spaces (a @ b) \<longleftrightarrow> spaces a \<and> spaces b"
  by (simp add: spaces_def)

lemma spaces_Nil [simp]: "spaces []"
  by (simp add: spaces_def)

lemma spaces_Cons [simp]: "spaces (c # w) \<longleftrightarrow> isspace c \<and> spaces w"
  by (simp add: spaces_def)

lemma in_star_space_iff:
  "e \<in> set (rmatch W fl (Star Space) p) \<longleftrightarrow> (\<exists>w. snd p = w @ snd e \<and> fst e = adv (fst p) w \<and> spaces w)"
  by (simp add: in_star_ends_iff spaces_def atom_match_Space_fun)

lemma user_label_iff:
  assumes "ignorecase fl"
  shows "q \<in> set (rmatch W fl (Alt [lits [0x7528, 0x6237], lits (ascii ''User'')]) p) \<longleftrightarrow>
     (\<exists>T. snd p = T @ snd q \<and> fst q = adv (fst p) T \<and> (spelled (ascii ''User'') T \<or> T = [0x7528, 0x6237]))"
proof -
  have lits_iff: "q \<in> set (rmatch_seq W fl (lits lab) p) \<longleftrightarrow>
        (\<exists>T. snd p = T @ snd q \<and> fst q = adv (fst p) T \<and> spelled lab T)" for lab
    using in_rmatch_seq_lits_iff [of q W fl lab "[]" "fst p" "snd p"] spelled_iff [OF assms]
    by (auto simp: prod_eq_iff)
  have cjk: "spelled [0x7528, 0x6237] T \<longleftrightarrow> T = [0x7528, 0x6237]" for T
    by (auto simp: spelled_def list_all2_Cons1 ci_variants_def)
  have "q \<in> set (rmatch W fl (Alt [lits [0x7528, 0x6237], lits (ascii ''User'')]) p) \<longleftrightarrow>
        q \<in> set (rmatch_seq W fl (lits [0x7528, 0x6237]) p) \<or> q \<in> set (rmatch_seq W fl (lits (ascii ''User'')) p)"
    by simp
  also have "\<dots> \<longleftrightarrow> (\<exists>T. snd p = T @ snd q \<and> fst q = adv (fst p) T \<and> spelled [0x7528, 0x6237] T)
        \<or> (\<exists>T. snd p = T @ snd q \<and> fst q = adv (fst p) T \<and> spelled (ascii ''User'') T)"
    by (simp only: lits_iff)
  also have "\<dots> \<longleftrightarrow> (\<exists>T. snd p = T @ snd q \<and> fst q = adv (fst p) T
        \<and> (spelled (ascii ''User'') T \<or> T = [0x7528, 0x6237]))"
    unfolding cjk by blast
  finally show ?thesis .
qed

lemma user_re_shape:
  assumes "e \<in> set (rmatch_seq W fl_i user_re (None, t))"
  shows "\<exists>u. t = u @ snd e \<and> user_token u \<and> u \<noteq> [] \<and> fst e \<noteq> None"
proof -
  from assms have "e \<in> set (rmatch_seq W fl_i [Star Space, Alt [lits [0x7528, 0x6237], lits (ascii ''User'')],
      Star Space, Opt colon, Star Space, Opt (Lit 10)] (None, t))"
    by (simp add: user_re_def at_beginning_def)
  then obtain q1 q2 q3 q4 q5 where
    q1: "q1 \<in> set (rmatch W fl_i (Star Space) (None, t))" and
    q2: "q2 \<in> set (rmatch W fl_i (Alt [lits [0x7528, 0x6237], lits (ascii ''User'')]) q1)" and
    q3: "q3 \<in> set (rmatch W fl_i (Star Space) q2)" and
    q4: "q4 \<in> set (rmatch W fl_i (Opt colon) q3)" and
    q5: "q5 \<in> set (rmatch W fl_i (Star Space) q4)" and
    e: "e \<in> set (rmatch W fl_i (Opt (Lit 10)) q5)"
    by (auto simp del: rmatch.simps)
  from q1 obtain w1 where w1: "t = w1 @ snd q1" "spaces w1" unfolding in_star_space_iff by auto
  from q2 obtain T where T: "snd q1 = T @ snd q2" "fst q2 = adv (fst q1) T"
    "spelled (ascii ''User'') T \<or> T = [0x7528, 0x6237]"
    unfolding user_label_iff [OF ignorecase_fl_i(1)] by blast
  from T(3) have Tne: "T \<noteq> []" by (auto simp: spelled_def ascii_def)
  from q3 obtain w2 where w2: "snd q2 = w2 @ snd q3" "fst q3 = adv (fst q2) w2" "spaces w2"
    unfolding in_star_space_iff by auto
  from q4 obtain cs where cs: "snd q3 = cs @ snd q4" "fst q4 = adv (fst q3) cs"
    "cs = [] \<or> (\<exists>c. cs = [c] \<and> is_colon c)"
  proof -
    from q4 have "q4 = q3 \<or> (\<exists>c. snd q3 = c # snd q4 \<and> fst q4 = Some c \<and> atom_match fl_i colon c)"
      unfolding in_rmatch_Opt_iff .
    then show ?thesis
    proof
      assume "q4 = q3"
      then show ?thesis using that [of "[]"] by simp
    next
      assume "\<exists>c. snd q3 = c # snd q4 \<and> fst q4 = Some c \<and> atom_match fl_i colon c"
      then obtain c where "snd q3 = c # snd q4" "fst q4 = Some c" "is_colon c" by auto
      then show ?thesis using that [of "[c]"] by (simp add: adv_def)
    qed
  qed
  from q5 obtain w3 where w3: "snd q4 = w3 @ snd q5" "fst q5 = adv (fst q4) w3" "spaces w3"
    unfolding in_star_space_iff by auto
  from e obtain w4 where w4: "snd q5 = w4 @ snd e" "fst e = adv (fst q5) w4" "spaces w4"
  proof -
    from e have "e = q5 \<or> (\<exists>c. snd q5 = c # snd e \<and> fst e = Some c \<and> atom_match fl_i (Lit 10) c)"
      unfolding in_rmatch_Opt_iff .
    then show ?thesis
    proof
      assume "e = q5"
      then show ?thesis using that [of "[]"] by simp
    next
      assume "\<exists>c. snd q5 = c # snd e \<and> fst e = Some c \<and> atom_match fl_i (Lit 10) c"
      then obtain c where c: "snd q5 = c # snd e" "fst e = Some c" "c = 10"
        by (auto simp: lit_match_def ci_variants_def ignorecase_fl_i)
      then show ?thesis using that [of "[c]"] by (simp add: adv_def isspace_def)
    qed
  qed
  let ?u = "w1 @ T @ w2 @ cs @ (w3 @ w4)"
  have t: "t = ?u @ snd e" using w1 T w2 cs w3 w4 by simp
  have tok: "user_token ?u"
    unfolding user_token_def using w1(2) T(3) w2(3) cs(3) w3(3) w4(3)
    by (intro exI [of _ w1] exI [of _ T] exI [of _ w2] exI [of _ cs] exI [of _ "w3 @ w4"]) simp
  have "fst q2 \<noteq> None" using T(2) Tne by (simp add: adv_def)
  then have "fst e \<noteq> None" using w2(2) cs(2) w3(2) w4(2) by (auto simp: adv_def split: if_splits)
  with t tok Tne show ?thesis by blast
qed

lemma re_sub_user:
  "re_sub_empty W fl_i user_re t = (case rmatch_seq W fl_i user_re (None, t) of [] \<Rightarrow> t | e # es \<Rightarrow> snd e)"
proof (cases "rmatch_seq W fl_i user_re (None, t)")
  case Nil
  have "\<forall>k \<le> length t. match_at W fl_i user_re t k = []"
  proof (intro allI impI)
    fix k assume "k \<le> length t"
    show "match_at W fl_i user_re t k = []"
    proof (cases k)
      case 0 then show ?thesis using Nil by (simp add: match_at_0)
    next
      case (Suc i)
      show ?thesis
      proof (cases "prev_of (rev (take k t))")
        case None
        then have "take k t = []" by (cases "rev (take k t)") (auto simp: prev_of_def)
        with Suc \<open>k \<le> length t\<close> show ?thesis by (cases t) auto
      next
        case (Some d)
        then show ?thesis by (simp add: match_at_def user_re_after_start)
      qed
    qed
  qed
  then have "re_sub_empty W fl_i user_re t = t" by (rule re_sub_no_match)
  with Nil show ?thesis by simp
next
  case (Cons e es)
  then have "e \<in> set (rmatch_seq W fl_i user_re (None, t))" by simp
  from user_re_shape [OF this] obtain u c where u: "t = u @ snd e" "u \<noteq> []" "fst e = Some c"
    by auto
  then have len: "length (snd e) < length t" by (metis length_append length_greater_0_conv less_add_same_cancel2)
  have "sub_from W fl_i user_re False None t = sub_from W fl_i user_re False (fst e) (snd e)"
    using Cons len by (subst sub_from.simps) (simp add: first_end_def)
  also have "\<dots> = snd e" using u(3) sub_user_after_start [of W False c "snd e"]
    by (simp del: sub_from.simps)
  finally show ?thesis using Cons by (simp add: re_sub_empty_def)
qed

lemma sanitize_by_match:
  "sanitize_reasoning_text W input =
     strip (case rmatch_seq W fl_i user_re (None, replace_crlf input) of
              [] \<Rightarrow> replace_crlf input | e # es \<Rightarrow> snd e)"
  by (simp add: sanitize_reasoning_text_def re_sub_user Let_def)

lemma sanitize_shape:
  "\<exists>u rest. replace_crlf input = u @ rest \<and> sanitize_reasoning_text W input = strip rest
      \<and> (u = [] \<or> user_token u)"
proof (cases "rmatch_seq W fl_i user_re (None, replace_crlf input)")
  case Nil
  then have "replace_crlf input = [] @ replace_crlf input
      \<and> sanitize_reasoning_text W input = strip (replace_crlf input)"
    by (simp add: sanitize_by_match)
  then show ?thesis by blast
next
  case (Cons e es)
  then have "e \<in> set (rmatch_seq W fl_i user_re (None, replace_crlf input))" by simp
  from user_re_shape [OF this] obtain u where "replace_crlf input = u @ snd e" "user_token u" by blast
  moreover have "sanitize_reasoning_text W input = strip (snd e)"
    using Cons by (simp add: sanitize_by_match)
  ultimately show ?thesis by blast
qed

lemma label_head:
  assumes "lab \<in> set label_words" and "spelled lab L"
  shows "\<exists>c r. L = c # r \<and> c \<notin> {85, 117, 0x7528} \<and> \<not> isspace c"
proof -
  from assms(1) have "\<exists>l ls. lab = l # ls \<and> l \<in> {112, 110, 97, 100, 0x63D0, 0x6B63, 0x8D1F, 0x907F, 0x4E0D}"
    by (auto simp: label_words_def ascii_def)
  then obtain l ls where lab: "lab = l # ls" "l \<in> {112, 110, 97, 100, 0x63D0, 0x6B63, 0x8D1F, 0x907F, 0x4E0D}"
    by blast
  from assms(2) lab(1) obtain c r where L: "L = c # r" "c \<in> set (ci_variants l)"
    by (auto simp: spelled_def list_all2_Cons1)
  from lab(2) L(2) have "c \<notin> {85, 117, 0x7528} \<and> \<not> isspace c"
    by (auto simp: ci_variants_def isspace_def)
  with L(1) show ?thesis by blast
qed

lemma user_head:
  assumes "spelled (ascii ''User'') T \<or> T = [0x7528, 0x6237]"
  shows "\<exists>c r. T = c # r \<and> c \<in> {85, 117, 0x7528}"
  using assms by (auto simp: spelled_def ascii_def list_all2_Cons1 ci_variants_def)

lemma lstrip_spaces_Cons: "spaces w \<Longrightarrow> \<not> isspace c \<Longrightarrow> lstrip (w @ c # r) = c # r"
  by (simp add: lstrip_def spaces_def list_all_iff dropWhile_append2)

lemma label_start_no_user:
  assumes "starts_with_label (lstrip t)"
  shows "rmatch_seq W fl_i user_re (None, t) = []"
proof (rule ccontr)
  assume "rmatch_seq W fl_i user_re (None, t) \<noteq> []"
  then obtain e where "e \<in> set (rmatch_seq W fl_i user_re (None, t))"
    by (cases "rmatch_seq W fl_i user_re (None, t)") auto
  from user_re_shape [OF this] obtain u where u: "t = u @ snd e" "user_token u" by blast
  from u(2) obtain w1 T x where ut: "u = w1 @ T @ x" "spaces w1"
    "spelled (ascii ''User'') T \<or> T = [0x7528, 0x6237]"
    unfolding user_token_def by blast
  from user_head [OF ut(3)] obtain c r where T: "T = c # r" "c \<in> {85, 117, 0x7528}" by blast
  have "\<not> isspace c" using T(2) by (auto simp: isspace_def)
  then have "lstrip t = c # r @ x @ snd e"
    using lstrip_spaces_Cons [OF ut(2), of c "r @ x @ snd e"] u(1) ut(1) T(1) by simp
  moreover from assms obtain lab L r' where "lab \<in> set label_words" "lstrip t = L @ r'" "spelled lab L"
    unfolding starts_with_label_def by blast
  ultimately show False using label_head T(2) by fastforce
qed

lemma sanitize_keeps_label:
  assumes "starts_with_label (lstrip (replace_crlf input))"
  shows "sanitize_reasoning_text W input = strip (replace_crlf input)"
  using label_start_no_user [OF assms, of W] by (simp add: sanitize_by_match)

lemma sanitize_example: "sanitize_reasoning_text W (ascii ''User: hello\<newline>Prompt: x'') = ascii ''hello\<newline>Prompt: x''"
  by (simp add: eval_defs)

lemma sanitize_example_twice: "sanitize_reasoning_text W (ascii ''User: User: x'') = ascii ''User: x''"
  by (simp add: eval_defs)

lemma sanitize_example_label: "sanitize_reasoning_text W (ascii ''Prompt: x'') = ascii ''Prompt: x''"
  by (simp add: eval_defs)

lemma label_start_example: "starts_with_label (lstrip (replace_crlf (ascii ''Prompt: x'')))"
proof -
  have "lstrip (replace_crlf (ascii ''Prompt: x'')) = ascii ''Prompt'' @ ascii '': x''"
    by (simp add: ascii_def lstrip_def isspace_def)
  moreover have "ascii ''prompt'' \<in> set label_words" by (simp add: label_words_def)
  moreover have "spelled (ascii ''prompt'') (ascii ''Prompt'')"
    by (simp add: spelled_def ascii_def ci_variants_def)
  ultimately show ?thesis unfolding starts_with_label_def by blast
qed

text \<open>
  C8. For every input text the sanitizer removes at most one leading token: the result
  is the trimmed rest of the text (line endings normalised) after a prefix that is
  either empty or one token made of optional white space, the word \<open>User\<close> in any case
  or its localized equivalent, optional white space, at most one colon and optional white
  space with the newline that may follow; nothing is removed from the middle of the
  text.  A text that begins, after white space, with a label of the splitter
  (\<open>Prompt:\<close> and the like) loses nothing but the surrounding white space.  In particular
  "User: hello\nPrompt: x" gives "hello\nPrompt: x", and "User: User: x" gives "User: x".
\<close>

theorem C8_sanitize:
  "sanitize_reasoning_text W (ascii ''User: hello\<newline>Prompt: x'') = ascii ''hello\<newline>Prompt: x''
   \<and> sanitize_reasoning_text W (ascii ''User: User: x'') = ascii ''User: x''
   \<and> (\<exists>u rest. replace_crlf input = u @ rest \<and> sanitize_reasoning_text W input = strip rest
          \<and> (u = [] \<or> user_token u))
   \<and> (starts_with_label (lstrip (replace_crlf input)) \<longrightarrow>
        sanitize_reasoning_text W input = strip (replace_crlf input))"
  using sanitize_example [of W] sanitize_example_twice [of W] sanitize_shape [of input W]
    sanitize_keeps_label [of input W]
  by blast

theorem C8_sanitize_witness:
  "starts_with_label (lstrip (replace_crlf (ascii ''Prompt: x'')))
   \<and> sanitize_reasoning_text (\<lambda>c. False) (ascii ''Prompt: x'') = strip (replace_crlf (ascii ''Prompt: x''))"
proof -
  note i = C8_sanitize [where W = "\<lambda>c. False" and input = "ascii ''Prompt: x''"]
  have "sanitize_reasoning_text (\<lambda>c. False) (ascii ''Prompt: x'') = strip (replace_crlf (ascii ''Prompt: x''))"
    using i [THEN conjunct2, THEN conjunct2, THEN conjunct2] label_start_example by (rule mp)
  with label_start_example show ?thesis by (intro conjI)
qed

section \<open>The cleanup of step 3\<close>


















end
